theory Spec2Isabelle
  imports Complex_Main "HOL-Library.Multiset"
begin

section \<open>Fitch parsimony over an ordered rooted tree\<close>

text \<open>
  The development embeds \<^verbatim>\<open>src/main/tree.py\<close>. A tree node of the source is an
  \<^verbatim>\<open>ete3.TreeNode\<close> carrying a name, a branch length and the features the program
  attaches to it (\<^verbatim>\<open>state\<close>, \<^verbatim>\<open>operation\<close>, \<^verbatim>\<open>gain\<close>, \<^verbatim>\<open>loss\<close>). A feature that has
  not been set yet is \<open>None\<close>; reading it raises \<^verbatim>\<open>AttributeError\<close>. The two flags are
  written by Pass 1 on every node before anything reads them, so they are plain booleans.
  Every exception the program can raise is a value of \<open>error\<close>; \<open>InvalidInputError\<close> is
  the error the specification names.
\<close>

subsection \<open>Data model\<close>

datatype error = AttributeError | ValueError | TreeError | InvalidInputError

datatype operation = INTERSECT | UNION

datatype node = Node (name: string) (dist: real) (state: "int set option")
  (operation: "operation option") (gain: bool) (loss: bool) (children: "node list")

subsection \<open>Pass 1: bottom-up state computation\<close>

text \<open>
  \<^verbatim>\<open>[d.state for d in node.children]\<close>: the first child without a state raises.
\<close>

fun states_of :: "node list \<Rightarrow> error + int set list" where
  "states_of [] = Inr []"
| "states_of (d # ds) =
     (case state d of
        None \<Rightarrow> Inl AttributeError
      | Some s \<Rightarrow> (case states_of ds of Inl e \<Rightarrow> Inl e | Inr ss \<Rightarrow> Inr (s # ss)))"

text \<open>
  \<^verbatim>\<open>_fitch_pass1\<close> walks the tree in postorder with one running counter. The recursion
  below visits the children from left to right and then the node, which is the same
  order; the counter of a subtree is the number of increments made inside it.
\<close>

fun fitch_pass1 :: "node \<Rightarrow> error + node \<times> nat"
  and pass1_children :: "node list \<Rightarrow> error + node list \<times> nat" where
  "fitch_pass1 (Node nm d st op g l cs) =
     (if cs = [] then Inr (Node nm d st op False False [], 0)
      else case pass1_children cs of
        Inl e \<Rightarrow> Inl e
      | Inr (cs', k) \<Rightarrow>
          (case states_of cs' of
             Inl e \<Rightarrow> Inl e
           | Inr desc_states \<Rightarrow>
               (let shared_state = \<Inter> (set desc_states) in
                if shared_state \<noteq> {}
                then Inr (Node nm d (Some shared_state) (Some INTERSECT) False False cs', k)
                else Inr (Node nm d (Some (\<Union> (set desc_states))) (Some UNION) False False cs',
                          k + 1))))"
| "pass1_children [] = Inr ([], 0)"
| "pass1_children (c # cs) =
     (case fitch_pass1 c of
        Inl e \<Rightarrow> Inl e
      | Inr (c', k) \<Rightarrow>
          (case pass1_children cs of
             Inl e \<Rightarrow> Inl e
           | Inr (cs', k') \<Rightarrow> Inr (c' # cs', k + k')))"

subsection \<open>Pass 2: top-down disambiguation\<close>

text \<open>
  A reference to a node object is its position in the tree (the child indices on the way
  from the root), paired with the name read through the reference. Two references are the
  same object exactly when the positions agree. The most recent ancestor \<open>mra\<close> is the
  parent, already updated when the node is visited; it is \<open>None\<close> at the root.
\<close>

type_synonym noderef = "nat list \<times> string"

fun fitch_pass2_from :: "int set option \<Rightarrow> nat list \<Rightarrow> node \<Rightarrow> error + node \<times> (noderef \<times> int) list"
  and pass2_children :: "int set \<Rightarrow> nat list \<Rightarrow> nat \<Rightarrow> node list \<Rightarrow> error + node list \<times> (noderef \<times> int) list" where
  "fitch_pass2_from mra p (Node nm d st op g l cs) =
     (if cs = [] then Inr (Node nm d st op g l [], [])
      else case st of
        None \<Rightarrow> Inl AttributeError
      | Some s \<Rightarrow>
          (case (case mra of
                   None \<Rightarrow> Inr s
                 | Some a \<Rightarrow>
                     if a \<subseteq> s then Inr (s \<inter> a)
                     else (case op of
                             None \<Rightarrow> Inl AttributeError
                           | Some UNION \<Rightarrow> Inr (a \<union> s)
                           | Some INTERSECT \<Rightarrow>
                               (case states_of cs of
                                  Inl e \<Rightarrow> Inl e
                                | Inr desc_states \<Rightarrow> Inr (s \<union> (a \<inter> \<Union> (set desc_states)))))) of
             Inl e \<Rightarrow> Inl e
           | Inr updated_state \<Rightarrow>
               (case pass2_children updated_state p 0 cs of
                  Inl e \<Rightarrow> Inl e
                | Inr (cs', amb) \<Rightarrow>
                    Inr (Node nm d (Some updated_state) op g l cs',
                         (if card updated_state > 1 then [((p, nm), 0), ((p, nm), 1)] else []) @ amb))))"
| "pass2_children a p i [] = Inr ([], [])"
| "pass2_children a p i (c # cs) =
     (case fitch_pass2_from (Some a) (p @ [i]) c of
        Inl e \<Rightarrow> Inl e
      | Inr (c', amb) \<Rightarrow>
          (case pass2_children a p (Suc i) cs of
             Inl e \<Rightarrow> Inl e
           | Inr (cs', amb') \<Rightarrow> Inr (c' # cs', amb @ amb')))"

definition fitch_pass2 :: "node \<Rightarrow> error + node \<times> (noderef \<times> int) list" where
  "fitch_pass2 tree = fitch_pass2_from None [] tree"

subsection \<open>Ambiguity resolver\<close>

text \<open>
  \<^verbatim>\<open>itertools.combinations\<close> yields the sublists of a given length in lexicographic order
  of their positions.
\<close>

fun combinations :: "'a list \<Rightarrow> nat \<Rightarrow> 'a list list" where
  "combinations xs 0 = [[]]"
| "combinations [] (Suc r) = []"
| "combinations (x # xs) (Suc r) = map ((#) x) (combinations xs r) @ combinations xs (Suc r)"

definition unique_nodes :: "(noderef \<times> int) list \<Rightarrow> bool" where
  "unique_nodes node_states \<longleftrightarrow> card (set (map fst node_states)) = length node_states"

text \<open>
  \<^verbatim>\<open>{node.name: state for node, state in tree_state}\<close>: the dictionary is keyed by the
  name, and a later entry replaces an earlier one with the same name.
\<close>

definition node_state_of :: "(noderef \<times> int) list \<Rightarrow> (string \<rightharpoonup> int)" where
  "node_state_of tree_state = foldl (\<lambda>m (node, st). m(snd node \<mapsto> st)) Map.empty tree_state"

text \<open>
  \<^verbatim>\<open>state, = node.state\<close> unpacks a set of exactly one element and raises
  \<^verbatim>\<open>ValueError\<close> on any other size.
\<close>

definition unpack_state :: "int set option \<Rightarrow> error + int" where
  "unpack_state st =
     (case st of
        None \<Rightarrow> Inl AttributeError
      | Some s \<Rightarrow> if card s = 1 then Inr (the_elem s) else Inl ValueError)"

definition effective_state :: "(string \<rightharpoonup> int) \<Rightarrow> node \<Rightarrow> error + int" where
  "effective_state node_state n =
     (case node_state (name n) of
        Some v \<Rightarrow> Inr v
      | None \<Rightarrow> unpack_state (state n))"

text \<open>
  The running tally of one candidate: \<^verbatim>\<open>tot_changes\<close>, \<^verbatim>\<open>changes['gain']\<close> and
  \<^verbatim>\<open>changes['loss']\<close>. The inner loop classifies the edges below one node; the outer
  loop is the preorder traversal, skipping leaves.
\<close>

type_synonym changes = "nat \<times> string set \<times> string set"

fun classify_children :: "(string \<rightharpoonup> int) \<Rightarrow> int \<Rightarrow> node list \<Rightarrow> changes \<Rightarrow> error + changes" where
  "classify_children node_state st [] acc = Inr acc"
| "classify_children node_state st (desc # descs) (tot, gains, losses) =
     (case effective_state node_state desc of
        Inl e \<Rightarrow> Inl e
      | Inr desc_state \<Rightarrow>
          classify_children node_state st descs
            (if st = 0 \<and> desc_state = 1 then (tot + 1, insert (name desc) gains, losses)
             else if st = 1 \<and> desc_state = 0 then (tot + 1, gains, insert (name desc) losses)
             else (tot, gains, losses)))"

fun count_changes :: "(string \<rightharpoonup> int) \<Rightarrow> bool \<Rightarrow> node \<Rightarrow> changes \<Rightarrow> error + changes"
  and count_changes_list :: "(string \<rightharpoonup> int) \<Rightarrow> node list \<Rightarrow> changes \<Rightarrow> error + changes" where
  "count_changes node_state is_root (Node nm d st op g l cs) acc =
     (if cs = [] then Inr acc
      else case effective_state node_state (Node nm d st op g l cs) of
        Inl e \<Rightarrow> Inl e
      | Inr v \<Rightarrow>
          (case classify_children node_state v cs
                  (if is_root \<and> v = 1
                   then (fst acc + 1, insert nm (fst (snd acc)), snd (snd acc)) else acc) of
             Inl e \<Rightarrow> Inl e
           | Inr acc' \<Rightarrow> count_changes_list node_state cs acc'))"
| "count_changes_list node_state [] acc = Inr acc"
| "count_changes_list node_state (c # cs) acc =
     (case count_changes node_state False c acc of
        Inl e \<Rightarrow> Inl e
      | Inr acc' \<Rightarrow> count_changes_list node_state cs acc')"

text \<open>
  The copy made for an accepted candidate: flags and states are set by name on every
  node of the copy, leaves included.
\<close>

fun annotate_assigned :: "(string \<rightharpoonup> int) \<Rightarrow> string set \<Rightarrow> string set \<Rightarrow> node \<Rightarrow> node" where
  "annotate_assigned node_state gains losses (Node nm d st op g l cs) =
     Node nm d (case node_state nm of Some v \<Rightarrow> Some {v} | None \<Rightarrow> st) op
       (if nm \<in> gains then True else g) (if nm \<in> losses then True else l)
       (map (annotate_assigned node_state gains losses) cs)"

fun resolve :: "node \<Rightarrow> nat \<Rightarrow> (noderef \<times> int) list list \<Rightarrow> error + node list" where
  "resolve tree min_changes [] = Inr []"
| "resolve tree min_changes (tree_state # rest) =
     (if \<not> unique_nodes tree_state then resolve tree min_changes rest
      else case count_changes (node_state_of tree_state) True tree (0, {}, {}) of
        Inl e \<Rightarrow> Inl e
      | Inr (tot_changes, gains, losses) \<Rightarrow>
          (case resolve tree min_changes rest of
             Inl e \<Rightarrow> Inl e
           | Inr annot_trees \<Rightarrow>
               Inr (if tot_changes = min_changes
                    then annotate_assigned (node_state_of tree_state) gains losses tree # annot_trees
                    else annot_trees)))"

text \<open>
  Without ambiguity the copy is annotated in one preorder pass in which every node marks
  its children. A node is marked by its parent only, so the recursion hands the parent's
  state down and lets the node set its own flag.
\<close>

fun annotate_from :: "int set option \<Rightarrow> node \<Rightarrow> error + node"
  and annotate_children :: "int set \<Rightarrow> node list \<Rightarrow> error + node list" where
  "annotate_from up_state (Node nm d st op g l cs) =
     (case st of
        None \<Rightarrow> Inl AttributeError
      | Some s \<Rightarrow>
          (case annotate_children s cs of
             Inl e \<Rightarrow> Inl e
           | Inr cs' \<Rightarrow>
               Inr (Node nm d st op
                      (if up_state = Some {0} \<and> s = {1} then True else g)
                      (if up_state = Some {1} \<and> s = {0} then True else l) cs')))"
| "annotate_children s [] = Inr []"
| "annotate_children s (c # cs) =
     (case annotate_from (Some s) c of
        Inl e \<Rightarrow> Inl e
      | Inr c' \<Rightarrow>
          (case annotate_children s cs of Inl e \<Rightarrow> Inl e | Inr cs' \<Rightarrow> Inr (c' # cs')))"

subsection \<open>Origin veto\<close>

text \<open>
  \<^verbatim>\<open>get_common_ancestor\<close> is a method of the tree library. It looks every target name up
  among all nodes of the tree and raises \<^verbatim>\<open>TreeError\<close> when a name occurs twice. With a
  single target it returns the common ancestor of that node and the tree itself, which is
  the tree; with several it returns their lowest common ancestor, the first node below
  the root that has more than one child.
\<close>

fun node_names :: "node \<Rightarrow> string list" where
  "node_names (Node nm d st op g l cs) = nm # concat (map node_names cs)"

fun get_leaf_names :: "node \<Rightarrow> string list" where
  "get_leaf_names (Node nm d st op g l cs) =
     (if cs = [] then [nm] else concat (map get_leaf_names cs))"

fun lowest_branching :: "node \<Rightarrow> node" where
  "lowest_branching (Node nm d st op g l cs) =
     (case cs of [c] \<Rightarrow> lowest_branching c | _ \<Rightarrow> Node nm d st op g l cs)"

definition get_common_ancestor :: "node \<Rightarrow> string list \<Rightarrow> error + node" where
  "get_common_ancestor tree targets =
     (if \<exists>n \<in> set targets. 1 < count_list (node_names tree) n then Inl TreeError
      else if length (remdups targets) = 1 then Inr tree
      else Inr (lowest_branching tree))"

definition get_pseudo_root :: "node \<Rightarrow> error + node" where
  "get_pseudo_root tree = get_common_ancestor tree (get_leaf_names tree)"

definition origin_veto :: "node \<Rightarrow> nat \<Rightarrow> node list \<Rightarrow> error + nat \<times> node list" where
  "origin_veto tree min_changes annot_trees =
     (case get_pseudo_root tree of
        Inl e \<Rightarrow> Inl e
      | Inr pseudo_root \<Rightarrow>
          (case state pseudo_root of
             None \<Rightarrow> Inl AttributeError
           | Some s \<Rightarrow> Inr (min_changes, if s = {1} then [] else annot_trees)))"

subsection \<open>The reconstruction\<close>

text \<open>
  \<^verbatim>\<open>_fitch\<close> returns the Pass 1 counter and the annotated trees; the source collects
  the trees in a set of objects, which never merges two of them, and the model lists them
  in the order in which they are accepted. \<^verbatim>\<open>fitch\<close> runs \<^verbatim>\<open>_fitch\<close> on a deep copy of its
  argument. As a value a deep copy is the tree itself; the object store further down
  tells the copy from the original.
\<close>

definition fitch' :: "node \<Rightarrow> error + nat \<times> node list" where
  "fitch' tree =
     (case fitch_pass1 tree of
        Inl e \<Rightarrow> Inl e
      | Inr (tree1, min_changes) \<Rightarrow>
          (case fitch_pass2 tree1 of
             Inl e \<Rightarrow> Inl e
           | Inr (tree2, ambiguous_nodes) \<Rightarrow>
               if ambiguous_nodes \<noteq> [] then
                 (let r = card (set (map fst ambiguous_nodes)) in
                  if r > 10 then Inr (min_changes, [])
                  else case resolve tree2 min_changes (combinations ambiguous_nodes r) of
                    Inl e \<Rightarrow> Inl e
                  | Inr annot_trees \<Rightarrow> origin_veto tree2 min_changes annot_trees)
               else
                 (case annotate_from None tree2 of
                    Inl e \<Rightarrow> Inl e
                  | Inr tree_cp \<Rightarrow> origin_veto tree2 min_changes [tree_cp])))"

definition fitch :: "node \<Rightarrow> error + nat \<times> node list" where
  "fitch tree = fitch' tree"

text \<open>The number of gain and loss events an annotated tree records.\<close>

fun events :: "node \<Rightarrow> nat" where
  "events (Node nm d st op g l cs) =
     (if g then 1 else 0) + (if l then 1 else 0) + sum_list (map events cs)"

subsection \<open>Node ages\<close>

text \<open>
  \<^verbatim>\<open>get_node_age\<close> fills a dictionary in postorder. Branch lengths are floats in the
  source and real numbers here; \<^verbatim>\<open>get_farthest_leaf\<close> returns the largest sum of branch
  lengths on a path from the node down to a leaf.
\<close>

datatype age = Label string | Distance real

fun traverse_postorder :: "node \<Rightarrow> node list" where
  "traverse_postorder (Node nm d st op g l cs) =
     concat (map traverse_postorder cs) @ [Node nm d st op g l cs]"

fun farthest_leaf_dist :: "node \<Rightarrow> real" where
  "farthest_leaf_dist (Node nm d st op g l cs) =
     (if cs = [] then 0
      else Max (set (map (\<lambda>c. dist c + farthest_leaf_dist c) cs)))"

definition get_node_age :: "node \<Rightarrow> (string \<rightharpoonup> age)" where
  "get_node_age tree =
     foldl (\<lambda>node_age n.
              node_age(name n \<mapsto>
                (if children n = [] then Label (name n) else Distance (farthest_leaf_dist n))))
       Map.empty (traverse_postorder tree)"

subsection \<open>Auxiliary notions\<close>

text \<open>The working tree, the counter and the ambiguous-node records after both passes.\<close>

definition run_passes :: "node \<Rightarrow> error + node \<times> nat \<times> (noderef \<times> int) list" where
  "run_passes tree =
     (case fitch_pass1 tree of
        Inl e \<Rightarrow> Inl e
      | Inr (tree1, min_changes) \<Rightarrow>
          (case fitch_pass2 tree1 of
             Inl e \<Rightarrow> Inl e
           | Inr (tree2, ambiguous_nodes) \<Rightarrow> Inr (tree2, min_changes, ambiguous_nodes)))"

fun leaf_states_present :: "node \<Rightarrow> bool" where
  "leaf_states_present (Node nm d st op g l cs) =
     (if cs = [] then st \<noteq> None else list_all leaf_states_present cs)"

subsection \<open>Well-formed inputs\<close>

text \<open>
  The input contract of the specification: every leaf carries the state \<open>{0}\<close> or \<open>{1}\<close>.
  A tree is \<open>binary\<close> when no node has more than two children.
\<close>

fun valid_leaves :: "node \<Rightarrow> bool" where
  "valid_leaves (Node nm d st op g l cs) =
     (if cs = [] then st = Some {0} \<or> st = Some {1} else list_all valid_leaves cs)"

fun binary :: "node \<Rightarrow> bool" where
  "binary (Node nm d st op g l cs) = (length cs \<le> 2 \<and> list_all binary cs)"

subsection \<open>What the two passes compute\<close>

text \<open>
  The set Pass 1 leaves on a node, the number of nodes it resolves by union, and the tree
  it leaves behind, as functions of the input tree. They are the yardstick the model of
  the passes is measured against below (\<open>pass1_pure\<close>, \<open>pass2_pure\<close>).
\<close>

fun prelim :: "node \<Rightarrow> int set" where
  "prelim (Node nm d st op g l cs) =
     (if cs = [] then (case st of None \<Rightarrow> {} | Some s \<Rightarrow> s)
      else if \<Inter> (set (map prelim cs)) \<noteq> {} then \<Inter> (set (map prelim cs))
      else \<Union> (set (map prelim cs)))"

definition is_union :: "node \<Rightarrow> bool" where
  "is_union n \<longleftrightarrow> children n \<noteq> [] \<and> \<Inter> (set (map prelim (children n))) = {}"

fun unions :: "node \<Rightarrow> nat" where
  "unions (Node nm d st op g l cs) =
     (if is_union (Node nm d st op g l cs) then 1 else 0) + sum_list (map unions cs)"

fun pass1_tree :: "node \<Rightarrow> node" where
  "pass1_tree (Node nm d st op g l cs) =
     (if cs = [] then Node nm d st op False False []
      else Node nm d (Some (prelim (Node nm d st op g l cs)))
             (Some (if is_union (Node nm d st op g l cs) then UNION else INTERSECT))
             False False (map pass1_tree cs))"

text \<open>
  The set Pass 2 leaves on a node whose most recent ancestor carries \<open>mra\<close>, the working
  tree after both passes, and the names of the nodes that stay ambiguous, in preorder.
\<close>

definition final :: "int set option \<Rightarrow> node \<Rightarrow> int set" where
  "final mra n =
     (if children n = [] then prelim n
      else case mra of
        None \<Rightarrow> prelim n
      | Some a \<Rightarrow>
          if a \<subseteq> prelim n then prelim n \<inter> a
          else if is_union n then a \<union> prelim n
          else prelim n \<union> (a \<inter> \<Union> (set (map prelim (children n)))))"

fun pass2_tree :: "int set option \<Rightarrow> node \<Rightarrow> node" where
  "pass2_tree mra (Node nm d st op g l cs) =
     (if cs = [] then Node nm d st op False False []
      else Node nm d (Some (final mra (Node nm d st op g l cs)))
             (Some (if is_union (Node nm d st op g l cs) then UNION else INTERSECT))
             False False
             (map (pass2_tree (Some (final mra (Node nm d st op g l cs)))) cs))"

fun ambiguous_names :: "int set option \<Rightarrow> node \<Rightarrow> string list" where
  "ambiguous_names mra (Node nm d st op g l cs) =
     (if cs = [] then []
      else (if card (final mra (Node nm d st op g l cs)) > 1 then [nm] else [])
           @ concat (map (ambiguous_names (Some (final mra (Node nm d st op g l cs)))) cs))"

definition amb_ok :: "string list \<Rightarrow> (noderef \<times> int) list \<Rightarrow> bool" where
  "amb_ok names amb \<longleftrightarrow> (snd \<circ> fst) ` set amb = set names \<and> snd ` set amb \<subseteq> {0, 1}"

definition mra_ok :: "int set option \<Rightarrow> bool" where
  "mra_ok mra \<longleftrightarrow> (\<forall>a. mra = Some a \<longrightarrow> a \<noteq> {} \<and> a \<subseteq> {0, 1})"

fun flags_clear :: "node \<Rightarrow> bool" where
  "flags_clear (Node nm d st op g l cs) = (\<not> g \<and> \<not> l \<and> list_all flags_clear cs)"

subsection \<open>Assignments and their cost\<close>

text \<open>
  A full assignment of a tree is a tree of the same shape in which every node carries a
  one-element state and every leaf keeps the state it was given. Its cost is the number
  of edges whose two ends carry different states.
\<close>

fun transitions :: "node \<Rightarrow> nat" where
  "transitions (Node nm d st op g l cs) =
     length (filter (\<lambda>c. state c \<noteq> st) cs) + sum_list (map transitions cs)"

fun singleton_assignment :: "node \<Rightarrow> node \<Rightarrow> bool" where
  "singleton_assignment (Node nm' d' st' op' g' l' cs') (Node nm d st op g l cs) =
     ((case st' of None \<Rightarrow> False | Some s \<Rightarrow> card s = 1) \<and>
      (cs = [] \<longrightarrow> st' = st) \<and>
      list_all2 singleton_assignment cs' cs)"

subsection \<open>What one candidate contributes\<close>

text \<open>
  The effective state of a node under a candidate dictionary, the names the traversal
  adds to the gain and loss sets, in the order it adds them, and the tree emitted for a
  candidate that is accepted.
\<close>

definition eff :: "(string \<rightharpoonup> int) \<Rightarrow> node \<Rightarrow> int" where
  "eff ns n = (case effective_state ns n of Inl e \<Rightarrow> 0 | Inr v \<Rightarrow> v)"

fun resolved :: "(string \<rightharpoonup> int) \<Rightarrow> node \<Rightarrow> bool" where
  "resolved ns (Node nm d st op g l cs) =
     ((effective_state ns (Node nm d st op g l cs) = Inr 0
       \<or> effective_state ns (Node nm d st op g l cs) = Inr 1)
      \<and> list_all (resolved ns) cs)"

definition child_gains :: "(string \<rightharpoonup> int) \<Rightarrow> int \<Rightarrow> node list \<Rightarrow> string list" where
  "child_gains ns v cs = map name (filter (\<lambda>c. v = 0 \<and> eff ns c = 1) cs)"

definition child_losses :: "(string \<rightharpoonup> int) \<Rightarrow> int \<Rightarrow> node list \<Rightarrow> string list" where
  "child_losses ns v cs = map name (filter (\<lambda>c. v = 1 \<and> eff ns c = 0) cs)"

fun gain_names :: "(string \<rightharpoonup> int) \<Rightarrow> bool \<Rightarrow> node \<Rightarrow> string list" where
  "gain_names ns r (Node nm d st op g l cs) =
     (if cs = [] then []
      else (if r \<and> eff ns (Node nm d st op g l cs) = 1 then [nm] else [])
           @ child_gains ns (eff ns (Node nm d st op g l cs)) cs
           @ concat (map (gain_names ns False) cs))"

fun loss_names :: "(string \<rightharpoonup> int) \<Rightarrow> node \<Rightarrow> string list" where
  "loss_names ns (Node nm d st op g l cs) =
     (if cs = [] then []
      else child_losses ns (eff ns (Node nm d st op g l cs)) cs
           @ concat (map (loss_names ns) cs))"

definition accepts :: "node \<Rightarrow> nat \<Rightarrow> (noderef \<times> int) list \<Rightarrow> bool" where
  "accepts tree m ts \<longleftrightarrow>
     unique_nodes ts \<and>
     length (gain_names (node_state_of ts) True tree) + length (loss_names (node_state_of ts) tree) = m"

definition accepted_tree :: "node \<Rightarrow> (noderef \<times> int) list \<Rightarrow> node" where
  "accepted_tree tree ts =
     annotate_assigned (node_state_of ts) (set (gain_names (node_state_of ts) True tree))
       (set (loss_names (node_state_of ts) tree)) tree"

definition flag_count :: "int set option \<Rightarrow> int set \<Rightarrow> nat" where
  "flag_count up s =
     (if up = Some {0} \<and> s = {1} then 1 else 0) + (if up = Some {1} \<and> s = {0} then 1 else 0)"

subsection \<open>The object store\<close>

text \<open>
  Whether a caller's tree is mutated is a question about objects, not values. A store is
  a list of node objects; an address is an index into it, and a node object refers to its
  children by address. \<open>load\<close> reads the tree below an address, following at most \<open>k\<close>
  child references in depth (a cyclic store has no tree). \<open>alloc\<close> is the deep copy of
  \<^verbatim>\<open>tree.copy('deepcopy')\<close>: it appends fresh objects for the children and then for the
  node, and returns the node's address.
\<close>

record obj =
  o_name :: string
  o_dist :: real
  o_state :: "int set option"
  o_operation :: "operation option"
  o_gain :: bool
  o_loss :: bool
  o_children :: "nat list"

type_synonym heap = "obj list"

fun load :: "nat \<Rightarrow> heap \<Rightarrow> nat \<Rightarrow> node option" where
  "load 0 h a = None"
| "load (Suc k) h a =
     (if a < length h then
        (case those (map (load k h) (o_children (h ! a))) of
           None \<Rightarrow> None
         | Some cs \<Rightarrow>
             Some (Node (o_name (h ! a)) (o_dist (h ! a)) (o_state (h ! a)) (o_operation (h ! a))
                     (o_gain (h ! a)) (o_loss (h ! a)) cs))
      else None)"

fun alloc :: "heap \<Rightarrow> node \<Rightarrow> heap \<times> nat"
  and alloc_list :: "heap \<Rightarrow> node list \<Rightarrow> heap \<times> nat list" where
  "alloc h (Node nm d st op g l cs) =
     (case alloc_list h cs of
        (h', as) \<Rightarrow>
          (h' @ [\<lparr>o_name = nm, o_dist = d, o_state = st, o_operation = op, o_gain = g,
                  o_loss = l, o_children = as\<rparr>], length h'))"
| "alloc_list h [] = (h, [])"
| "alloc_list h (c # cs) =
     (case alloc h c of
        (h1, a) \<Rightarrow> (case alloc_list h1 cs of (h2, as) \<Rightarrow> (h2, a # as)))"

text \<open>
  \<^verbatim>\<open>_fitch\<close> assigns to attributes of the nodes of the tree it is given and of nothing
  else: \<open>write_back\<close> stores the state, operation and flags of a tree value into the objects
  below an address, following the objects' own child references.
\<close>

fun write_back :: "heap \<Rightarrow> nat \<Rightarrow> node \<Rightarrow> heap"
  and write_back_list :: "heap \<Rightarrow> nat list \<Rightarrow> node list \<Rightarrow> heap" where
  "write_back h a (Node nm d st op g l cs) =
     (if a < length h then
        write_back_list
          (h[a := (h ! a)\<lparr>o_state := st, o_operation := op, o_gain := g, o_loss := l\<rparr>])
          (o_children (h ! a)) cs
      else h)"
| "write_back_list h [] cs = h"
| "write_back_list h (a # as) [] = h"
| "write_back_list h (a # as) (c # cs) = write_back_list (write_back h a c) as cs"

text \<open>
  What the passes have written into the objects of a tree by the time \<^verbatim>\<open>_fitch\<close> is done
  with them. Pass 1 writes in postorder and may raise half way: \<open>pass1_written\<close> returns the
  tree as written so far, and whether the pass came to its end. Pass 2 does not raise once
  Pass 1 has returned (\<open>pass2_after_pass1\<close>).
\<close>

fun pass1_written :: "node \<Rightarrow> node \<times> bool"
  and pass1_written_list :: "node list \<Rightarrow> node list \<times> bool" where
  "pass1_written (Node nm d st op g l cs) =
     (if cs = [] then (Node nm d st op False False [], True)
      else case pass1_written_list cs of
        (cs', False) \<Rightarrow> (Node nm d st op g l cs', False)
      | (cs', True) \<Rightarrow>
          (case states_of cs' of
             Inl e \<Rightarrow> (Node nm d st op False False cs', False)
           | Inr desc_states \<Rightarrow>
               (if \<Inter> (set desc_states) \<noteq> {}
                then (Node nm d (Some (\<Inter> (set desc_states))) (Some INTERSECT) False False cs', True)
                else (Node nm d (Some (\<Union> (set desc_states))) (Some UNION) False False cs', True))))"
| "pass1_written_list [] = ([], True)"
| "pass1_written_list (c # cs) =
     (case pass1_written c of
        (c', False) \<Rightarrow> (c' # cs, False)
      | (c', True) \<Rightarrow> (case pass1_written_list cs of (cs', ok) \<Rightarrow> (c' # cs', ok)))"

definition working_tree :: "node \<Rightarrow> node" where
  "working_tree tree =
     (case pass1_written tree of
        (tree1, False) \<Rightarrow> tree1
      | (tree1, True) \<Rightarrow>
          (case fitch_pass2 tree1 of Inl e \<Rightarrow> tree1 | Inr (tree2, amb) \<Rightarrow> tree2))"

text \<open>
  \<^verbatim>\<open>_fitch\<close> on the store: the passes write into the tree at \<open>a\<close>, and every annotated
  tree that is returned is a fresh deep copy. Copies that are dropped again, by the veto
  or by an exception, are garbage and are not kept. \<^verbatim>\<open>fitch\<close> copies the caller's tree
  first and hands the copy on.
\<close>

definition fitch'_store :: "nat \<Rightarrow> heap \<Rightarrow> nat \<Rightarrow> (heap \<times> (error + nat \<times> nat list)) option" where
  "fitch'_store k h a =
     (case load k h a of
        None \<Rightarrow> None
      | Some tree \<Rightarrow>
          (case fitch' tree of
             Inl e \<Rightarrow> Some (write_back h a (working_tree tree), Inl e)
           | Inr (m, trees) \<Rightarrow>
               (case alloc_list (write_back h a (working_tree tree)) trees of
                  (h', addrs) \<Rightarrow> Some (h', Inr (m, addrs)))))"

definition fitch_store :: "nat \<Rightarrow> heap \<Rightarrow> nat \<Rightarrow> (heap \<times> (error + nat \<times> nat list)) option" where
  "fitch_store k h a =
     (case load k h a of
        None \<Rightarrow> None
      | Some tree \<Rightarrow> (case alloc h tree of (h1, tree_cp) \<Rightarrow> fitch'_store k h1 tree_cp))"

text \<open>
  A result on the store denotes a result of the value-level model when it is the same
  error, or the same count with addresses at which the same trees are stored, in the same
  order. (The source returns a set of tree objects, which has no order.)
\<close>

definition denotes :: "heap \<Rightarrow> (error + nat \<times> nat list) \<Rightarrow> (error + nat \<times> node list) \<Rightarrow> bool" where
  "denotes h r v =
     (case r of
        Inl e \<Rightarrow> v = Inl e
      | Inr (m, addrs) \<Rightarrow>
          (case those (map (load (length h) h) addrs) of
             None \<Rightarrow> False
           | Some trees \<Rightarrow> v = Inr (m, trees)))"

fun height :: "node \<Rightarrow> nat" where
  "height (Node nm d st op g l cs) = Suc (Max (insert 0 (set (map height cs))))"

definition closed_from :: "nat \<Rightarrow> heap \<Rightarrow> bool" where
  "closed_from n0 h \<longleftrightarrow>
     (\<forall>b. n0 \<le> b \<and> b < length h \<longrightarrow> (\<forall>c\<in>set (o_children (h ! b)). n0 \<le> c \<and> c < length h))"

subsection \<open>Example trees\<close>

definition leaf :: "string \<Rightarrow> int \<Rightarrow> node" where
  "leaf nm v = Node nm 1 (Some {v}) None False False []"

definition inner :: "string \<Rightarrow> node list \<Rightarrow> node" where
  "inner nm cs = Node nm 1 None None False False cs"

definition chain11 :: node where
  "chain11 =
     inner ''n0'' [inner ''n1'' [inner ''n2'' [inner ''n3'' [inner ''n4'' [inner ''n5''
       [inner ''n6'' [inner ''n7'' [inner ''n8'' [inner ''n9'' [inner ''n10''
          [leaf ''A'' 0, leaf ''B'' 1]]]]]]]]]]]"

definition star4 :: node where
  "star4 = inner ''r'' [leaf ''A'' 1, leaf ''B'' 1, leaf ''C'' 0, leaf ''D'' 0]"

definition unnamed3 :: node where
  "unnamed3 = inner [] [inner [] [leaf ''A'' 1, leaf ''C'' 1], leaf ''B'' 0]"

definition named3 :: node where
  "named3 = inner ''r'' [inner ''x'' [leaf ''A'' 1, leaf ''C'' 1], leaf ''B'' 0]"

definition stateless_leaf :: node where
  "stateless_leaf = inner ''r'' [leaf ''A'' 1, Node ''B'' 1 None None False False []]"

definition poly6 :: node where
  "poly6 = inner ''r'' [inner ''x'' [leaf ''A'' 0, leaf ''C'' 1, leaf ''E'' 1, leaf ''F'' 1],
                        leaf ''B'' 0, leaf ''D'' 0]"




definition dup4 :: node where
  "dup4 = inner ''r'' [inner ''x'' [leaf ''A'' 1, leaf ''C'' 1],
                       inner ''x'' [leaf ''D'' 0, leaf ''E'' 0]]"

definition bare_leaf :: node where
  "bare_leaf = Node ''A'' 1 None None False False []"

definition stored3 :: node where
  "stored3 = inner ''r'' [leaf ''A'' 0, leaf ''B'' 1]"

definition heap3 :: heap where
  "heap3 = fst (alloc [] stored3)"

section \<open>Properties\<close>

subsection \<open>The passes compute the Fitch sets\<close>

lemma state_pass1_tree: "leaf_states_present t \<Longrightarrow> state (pass1_tree t) = Some (prelim t)"
  by (cases t) auto

lemma states_of_pass1: "list_all leaf_states_present cs \<Longrightarrow> states_of (map pass1_tree cs) = Inr (map prelim cs)"
  by (induction cs) (auto simp: state_pass1_tree)

lemma pass1_pure_aux:
  "leaf_states_present t \<Longrightarrow> fitch_pass1 t = Inr (pass1_tree t, unions t)"
  "list_all leaf_states_present cs \<Longrightarrow> pass1_children cs = Inr (map pass1_tree cs, sum_list (map unions cs))"
proof (induction t and cs rule: fitch_pass1_pass1_children.induct)
  case (1 nm d st op g l cs)
  then show ?case
    by (auto simp: states_of_pass1 is_union_def Let_def)
next
  case 2
  then show ?case by simp
next
  case (3 c cs)
  then show ?case by auto
qed

lemma pass1_pure: "leaf_states_present t \<Longrightarrow> fitch_pass1 t = Inr (pass1_tree t, unions t)"
  by (rule pass1_pure_aux)

lemma amb_ok_Nil: "amb_ok [] []"
  by (simp add: amb_ok_def)

lemma amb_ok_append: "amb_ok ns amb \<Longrightarrow> amb_ok ns' amb' \<Longrightarrow> amb_ok (ns @ ns') (amb @ amb')"
  by (auto simp: amb_ok_def image_Un)

lemma amb_ok_pair: "amb_ok [nm] [((p, nm), 0), ((p, nm), 1)]"
  by (simp add: amb_ok_def)

lemma pass2_children_pure:
  assumes "\<And>c mra p. c \<in> set cs \<Longrightarrow>
             \<exists>amb. fitch_pass2_from mra p (pass1_tree c) = Inr (pass2_tree mra c, amb)
                  \<and> amb_ok (ambiguous_names mra c) amb"
  shows "\<exists>amb. pass2_children a p i (map pass1_tree cs) = Inr (map (pass2_tree (Some a)) cs, amb)
              \<and> amb_ok (concat (map (ambiguous_names (Some a)) cs)) amb"
  using assms
proof (induction cs arbitrary: i)
  case Nil
  then show ?case by (simp add: amb_ok_Nil)
next
  case (Cons c cs)
  obtain amb1 where 1: "fitch_pass2_from (Some a) (p @ [i]) (pass1_tree c) = Inr (pass2_tree (Some a) c, amb1)"
    and ok1: "amb_ok (ambiguous_names (Some a) c) amb1"
    using Cons.prems[of c "Some a" "p @ [i]"] by auto
  obtain amb2 where 2: "pass2_children a p (Suc i) (map pass1_tree cs) = Inr (map (pass2_tree (Some a)) cs, amb2)"
    and ok2: "amb_ok (concat (map (ambiguous_names (Some a)) cs)) amb2"
    using Cons.IH[of "Suc i"] Cons.prems by auto
  show ?case using 1 2 amb_ok_append[OF ok1 ok2] by simp
qed

lemma pass2_pure:
  "leaf_states_present t \<Longrightarrow>
     \<exists>amb. fitch_pass2_from mra p (pass1_tree t) = Inr (pass2_tree mra t, amb)
          \<and> amb_ok (ambiguous_names mra t) amb"
proof (induction t arbitrary: mra p)
  case (Node nm d st op g l cs)
  show ?case
  proof (cases "cs = []")
    case True
    then show ?thesis by (simp add: amb_ok_Nil)
  next
    case False
    let ?n = "Node nm d st op g l cs"
    let ?u = "final mra ?n"
    from Node.prems False have lp: "list_all leaf_states_present cs" by simp
    have ih: "\<And>c mra p. c \<in> set cs \<Longrightarrow>
             \<exists>amb. fitch_pass2_from mra p (pass1_tree c) = Inr (pass2_tree mra c, amb)
                  \<and> amb_ok (ambiguous_names mra c) amb"
      using Node.IH lp by (auto simp: list_all_iff)
    obtain amb where ch: "pass2_children ?u p 0 (map pass1_tree cs) = Inr (map (pass2_tree (Some ?u)) cs, amb)"
      and ok: "amb_ok (concat (map (ambiguous_names (Some ?u)) cs)) amb"
      using pass2_children_pure[OF ih, of cs ?u p 0] by auto
    have ok': "amb_ok (ambiguous_names mra ?n) ((if card ?u > 1 then [((p, nm), 0), ((p, nm), 1)] else []) @ amb)"
      using False ok amb_ok_append[OF amb_ok_pair ok] by (auto simp: Let_def)
    have upd: "(case mra of
                   None \<Rightarrow> Inr (prelim ?n)
                 | Some a \<Rightarrow>
                     if a \<subseteq> prelim ?n then Inr (prelim ?n \<inter> a)
                     else (case Some (if is_union ?n then UNION else INTERSECT) of
                             None \<Rightarrow> Inl AttributeError
                           | Some UNION \<Rightarrow> Inr (a \<union> prelim ?n)
                           | Some INTERSECT \<Rightarrow>
                               (case states_of (map pass1_tree cs) of
                                  Inl e \<Rightarrow> Inl e
                                | Inr desc_states \<Rightarrow> Inr (prelim ?n \<union> (a \<inter> \<Union> (set desc_states)))))) = (Inr ?u :: error + int set)"
      using False by (auto simp: final_def states_of_pass1[OF lp] split: option.splits)
    show ?thesis
      using False ch ok' upd by (simp del: prelim.simps ambiguous_names.simps)
  qed
qed

lemma run_passes_pure:
  assumes "leaf_states_present t"
  shows "\<exists>amb. run_passes t = Inr (pass2_tree None t, unions t, amb) \<and> amb_ok (ambiguous_names None t) amb"
  using pass2_pure[OF assms, of None "[]"] pass1_pure[OF assms]
  by (auto simp: run_passes_def fitch_pass2_def)

subsection \<open>A lower bound on every assignment, and an assignment that meets it\<close>

lemma prelim_nonempty: "valid_leaves t \<Longrightarrow> prelim t \<noteq> {}"
proof (induction t)
  case (Node nm d st op g l cs)
  show ?case
  proof (cases "cs = []")
    case True
    with Node.prems show ?thesis by auto
  next
    case False
    then obtain c where c: "c \<in> set cs" by (cases cs) auto
    with Node False have "prelim c \<noteq> {}" by (auto simp: list_all_iff)
    with c have "\<Union> (set (map prelim cs)) \<noteq> {}" by auto
    with False show ?thesis by simp
  qed
qed

lemma prelim_binary: "valid_leaves t \<Longrightarrow> prelim t \<subseteq> {0, 1}"
proof (induction t)
  case (Node nm d st op g l cs)
  show ?case
  proof (cases "cs = []")
    case True
    with Node.prems show ?thesis by auto
  next
    case False
    then obtain c where c: "c \<in> set cs" by (cases cs) auto
    have all: "\<forall>c\<in>set cs. prelim c \<subseteq> {0, 1}"
      using Node False by (auto simp: list_all_iff)
    then have u: "\<Union> (set (map prelim cs)) \<subseteq> {0, 1}" by auto
    have "\<Inter> (set (map prelim cs)) \<subseteq> prelim c" using c by auto
    with all c have i: "\<Inter> (set (map prelim cs)) \<subseteq> {0, 1}" by blast
    from False u i show ?thesis by simp
  qed
qed

lemma transitions_sum:
  "transitions (Node nm d st op g l cs) =
     sum_list (map (\<lambda>c. (if state c \<noteq> st then 1 else 0) + transitions c) cs)"
  by (induction cs) auto

lemma sum_list_all2_le:
  assumes "list_all2 (\<lambda>x y. (h y :: nat) \<le> f x) xs ys"
  shows "sum_list (map h ys) \<le> sum_list (map f xs)"
  using assms by (induction rule: list_all2_induct) auto

lemma count_outside:
  assumes "cs \<noteq> []" and "\<forall>c\<in>set cs. prelim c \<noteq> {}"
  shows "(if is_union (Node nm d st op g l cs) then 1 else 0)
           + (if v \<in> prelim (Node nm d st op g l cs) then 0 else 1)
         \<le> length (filter (\<lambda>c. v \<notin> prelim c) cs)"
proof (cases "is_union (Node nm d st op g l cs)")
  case False
  then have inter: "\<Inter> (set (map prelim cs)) \<noteq> {}" using assms(1) by (simp add: is_union_def)
  show ?thesis
  proof (cases "v \<in> \<Inter> (set (map prelim cs))")
    case True
    with False inter assms(1) show ?thesis by simp
  next
    case nin: False
    then obtain c where "c \<in> set cs" "v \<notin> prelim c" by auto
    then have "filter (\<lambda>c. v \<notin> prelim c) cs \<noteq> []" by (auto simp: filter_empty_conv)
    then have "1 \<le> length (filter (\<lambda>c. v \<notin> prelim c) cs)" by (cases "filter (\<lambda>c. v \<notin> prelim c) cs") auto
    with False show ?thesis by simp
  qed
next
  case True
  then have inter: "\<Inter> (set (map prelim cs)) = {}" by (simp add: is_union_def)
  then obtain c where c: "c \<in> set cs" "v \<notin> prelim c" by auto
  then have ne: "filter (\<lambda>c. v \<notin> prelim c) cs \<noteq> []" by (auto simp: filter_empty_conv)
  show ?thesis
  proof (cases "v \<in> \<Union> (set (map prelim cs))")
    case True
    from ne have "1 \<le> length (filter (\<lambda>c. v \<notin> prelim c) cs)" by (cases "filter (\<lambda>c. v \<notin> prelim c) cs") auto
    with True \<open>is_union _\<close> inter assms(1) show ?thesis by simp
  next
    case nin: False
    then have allout: "filter (\<lambda>c. v \<notin> prelim c) cs = cs" by (auto simp: filter_id_conv)
    have "2 \<le> length cs"
    proof (rule ccontr)
      assume "\<not> 2 \<le> length cs"
      with assms(1) obtain c0 where "cs = [c0]" by (cases cs) (auto simp: Suc_le_eq)
      with inter assms(2) show False by simp
    qed
    with allout True show ?thesis by simp
  qed
qed

lemma fitch_lower_bound_aux:
  "valid_leaves t \<Longrightarrow> singleton_assignment a t \<Longrightarrow> state a = Some {v} \<Longrightarrow>
     unions t + (if v \<in> prelim t then 0 else 1) \<le> transitions a"
proof (induction t arbitrary: a v)
  case (Node nm d st op g l cs)
  obtain nm' d' st' op' g' l' cs' where a: "a = Node nm' d' st' op' g' l' cs'" by (cases a)
  from Node.prems(2) a have all2: "list_all2 singleton_assignment cs' cs"
    and leaf: "cs = [] \<longrightarrow> st' = st" by auto
  from Node.prems(3) a have st': "st' = Some {v}" by simp
  show ?case
  proof (cases "cs = []")
    case True
    with leaf st' all2 a show ?thesis by (auto simp: is_union_def)
  next
    case False
    let ?h = "\<lambda>c. unions c + (if v \<in> prelim c then 0 else 1)"
    let ?f = "\<lambda>c'. (if state c' \<noteq> st' then 1 else 0) + transitions c'"
    from Node.prems(1) False have vl: "\<forall>c\<in>set cs. valid_leaves c" by (simp add: list_all_iff)
    have "list_all2 (\<lambda>c' c. ?h c \<le> ?f c') cs' cs"
    proof (rule list.rel_mono_strong[OF all2])
      fix c' c assume "c' \<in> set cs'" "c \<in> set cs" and sa: "singleton_assignment c' c"
      from sa obtain w where w: "state c' = Some {w}"
        by (cases c'; cases c) (auto simp: card_1_singleton_iff split: option.splits)
      from Node.IH[OF \<open>c \<in> set cs\<close> _ sa w] vl \<open>c \<in> set cs\<close>
      have ih: "unions c + (if w \<in> prelim c then 0 else 1) \<le> transitions c'" by simp
      show "?h c \<le> ?f c'"
      proof (cases "w = v")
        case True
        with ih show ?thesis by simp
      next
        case False
        with w st' have "state c' \<noteq> st'" by simp
        with ih show ?thesis by simp
      qed
    qed
    from sum_list_all2_le[OF this]
    have "sum_list (map ?h cs) \<le> transitions a"
      unfolding a transitions_sum .
    moreover have "sum_list (map ?h cs) = sum_list (map unions cs) + length (filter (\<lambda>c. v \<notin> prelim c) cs)"
      by (induction cs) auto
    moreover have "(if is_union (Node nm d st op g l cs) then 1 else 0)
           + (if v \<in> prelim (Node nm d st op g l cs) then 0 else 1)
         \<le> length (filter (\<lambda>c. v \<notin> prelim c) cs)"
      using count_outside[OF False] vl prelim_nonempty by blast
    ultimately show ?thesis by (simp del: prelim.simps)
  qed
qed

lemma fitch_lower_bound:
  assumes "valid_leaves t" "singleton_assignment a t"
  shows "unions t \<le> transitions a"
proof -
  from assms(2) obtain v where "state a = Some {v}"
    by (cases a; cases t) (auto simp: card_1_singleton_iff split: option.splits)
  from fitch_lower_bound_aux[OF assms this] show ?thesis by simp
qed

lemma fitch_attained_aux:
  "valid_leaves t \<Longrightarrow> binary t \<Longrightarrow> v \<in> prelim t \<Longrightarrow>
     \<exists>a. singleton_assignment a t \<and> state a = Some {v} \<and> transitions a = unions t"
proof (induction t arbitrary: v)
  case (Node nm d st op g l cs)
  let ?t = "Node nm d st op g l cs"
  from Node.prems(2) have len: "length cs \<le> 2" and bin: "\<forall>c\<in>set cs. binary c"
    by (auto simp: list_all_iff)
  consider (leaf) "cs = []" | (one) c where "cs = [c]" | (two) c1 c2 where "cs = [c1, c2]"
    using len by (cases cs; cases "tl cs"; cases "tl (tl cs)") auto
  then show ?case
  proof cases
    case leaf
    with Node.prems have st: "st = Some {v}" by auto
    have "singleton_assignment ?t ?t" using leaf st by simp
    moreover have "transitions ?t = unions ?t" using leaf by (simp add: is_union_def)
    ultimately show ?thesis using st by (intro exI[of _ ?t]) simp
  next
    case one
    from Node.prems one have vc: "valid_leaves c" and bc: "binary c" by auto
    have ne: "prelim c \<noteq> {}" by (rule prelim_nonempty[OF vc])
    with one Node.prems(3) have v: "v \<in> prelim c" by simp
    from Node.IH[of c v] one vc bc v obtain ac where
      ac: "singleton_assignment ac c" "state ac = Some {v}" "transitions ac = unions c" by auto
    let ?a = "Node nm d (Some {v}) op g l [ac]"
    have "singleton_assignment ?a ?t" using one ac by simp
    moreover have "transitions ?a = unions ?t" using one ac ne by (simp add: is_union_def)
    ultimately show ?thesis by (intro exI[of _ ?a]) simp
  next
    case two
    from Node.prems two have vc: "valid_leaves c1" "valid_leaves c2"
      and bc: "binary c1" "binary c2" by auto
    have ne: "prelim c1 \<noteq> {}" "prelim c2 \<noteq> {}" using vc prelim_nonempty by auto
    have pick: "\<exists>w a. singleton_assignment a c \<and> state a = Some {w} \<and> transitions a = unions c
                  \<and> (v \<in> prelim c \<longrightarrow> w = v) \<and> w \<in> prelim c"
      if c: "c \<in> set cs" for c
    proof (cases "v \<in> prelim c")
      case True
      from Node.IH[OF c _ _ True] c Node.prems(1) bin two show ?thesis
        using True by (auto simp: list_all_iff)
    next
      case False
      from c two ne obtain w where w: "w \<in> prelim c" by auto
      from Node.IH[OF c _ _ w] c Node.prems(1) bin two show ?thesis
        using False w by (auto simp: list_all_iff)
    qed
    from pick[of c1] two obtain w1 a1 where
      a1: "singleton_assignment a1 c1" "state a1 = Some {w1}" "transitions a1 = unions c1"
          "v \<in> prelim c1 \<longrightarrow> w1 = v" "w1 \<in> prelim c1" by auto
    from pick[of c2] two obtain w2 a2 where
      a2: "singleton_assignment a2 c2" "state a2 = Some {w2}" "transitions a2 = unions c2"
          "v \<in> prelim c2 \<longrightarrow> w2 = v" "w2 \<in> prelim c2" by auto
    let ?a = "Node nm d (Some {v}) op g l [a1, a2]"
    have sa: "singleton_assignment ?a ?t" using two a1 a2 by simp
    have "transitions ?a = unions ?t"
    proof (cases "prelim c1 \<inter> prelim c2 = {}")
      case True
      with Node.prems(3) two have "v \<in> prelim c1 \<union> prelim c2" by simp
      with True a1 a2 have "(w1 = v \<and> w2 \<noteq> v) \<or> (w1 \<noteq> v \<and> w2 = v)" by auto
      with True two a1 a2 show ?thesis by (auto simp: is_union_def)
    next
      case False
      with Node.prems(3) two have "v \<in> prelim c1 \<inter> prelim c2" by simp
      with a1 a2 have "w1 = v" "w2 = v" by auto
      with False two a1 a2 show ?thesis by (simp add: is_union_def)
    qed
    with sa show ?thesis by (intro exI[of _ ?a]) simp
  qed
qed

lemma fitch_attained:
  assumes "valid_leaves t" "binary t"
  shows "\<exists>a. singleton_assignment a t \<and> transitions a = unions t"
proof -
  from prelim_nonempty[OF assms(1)] obtain v where "v \<in> prelim t" by auto
  from fitch_attained_aux[OF assms this] show ?thesis by blast
qed

lemma valid_leaves_present: "valid_leaves t \<Longrightarrow> leaf_states_present t"
  by (induction t) (auto simp: list_all_iff)

subsection \<open>The sets after Pass 2\<close>

lemma final_leaf: "children t = [] \<Longrightarrow> final mra t = prelim t"
  by (simp add: final_def)

lemma final_root: "final None t = prelim t"
  by (simp add: final_def)

lemma final_sub:
  "children t \<noteq> [] \<Longrightarrow> a \<subseteq> prelim t \<Longrightarrow> final (Some a) t = prelim t \<inter> a"
  by (simp add: final_def)

lemma final_union:
  "children t \<noteq> [] \<Longrightarrow> \<not> a \<subseteq> prelim t \<Longrightarrow> is_union t \<Longrightarrow> final (Some a) t = a \<union> prelim t"
  by (simp add: final_def)

lemma final_inter:
  "children t \<noteq> [] \<Longrightarrow> \<not> a \<subseteq> prelim t \<Longrightarrow> \<not> is_union t \<Longrightarrow>
     final (Some a) t = prelim t \<union> (a \<inter> \<Union> (set (map prelim (children t))))"
  by (simp add: final_def)

lemma final_cases:
  obtains (keep) "final mra t = prelim t"
  | (adopt) a where "mra = Some a" "a \<subseteq> prelim t" "final mra t = prelim t \<inter> a"
  | (widen) a where "mra = Some a" "final mra t = a \<union> prelim t"
  | (recover) a where "mra = Some a"
      "final mra t = prelim t \<union> (a \<inter> \<Union> (set (map prelim (children t))))"
proof (cases "children t = []")
  case True
  then show ?thesis using keep final_leaf by blast
next
  case ne: False
  show ?thesis
  proof (cases mra)
    case None
    then show ?thesis using keep final_root by blast
  next
    case (Some a)
    show ?thesis
    proof (cases "a \<subseteq> prelim t")
      case True
      then show ?thesis using adopt[OF Some True] final_sub[OF ne True] Some by blast
    next
      case False
      show ?thesis
      proof (cases "is_union t")
        case True
        then show ?thesis using widen[OF Some] final_union[OF ne False True] Some by blast
      next
        case nu: False
        then show ?thesis using recover[OF Some] final_inter[OF ne False nu] Some by blast
      qed
    qed
  qed
qed

lemma state_pass2_tree:
  "leaf_states_present t \<Longrightarrow> state (pass2_tree mra t) = Some (final mra t)"
  by (cases t) (auto simp: final_leaf)

lemma final_binary:
  assumes "valid_leaves t" and "\<And>a. mra = Some a \<Longrightarrow> a \<subseteq> {0, 1}"
  shows "final mra t \<subseteq> {0, 1}"
proof -
  have p: "prelim t \<subseteq> {0, 1}" by (rule prelim_binary[OF assms(1)])
  show ?thesis
  proof (cases rule: final_cases[of mra t])
    case keep
    with p show ?thesis by simp
  next
    case (adopt a)
    with p show ?thesis by blast
  next
    case (widen a)
    with p assms(2)[of a] show ?thesis by blast
  next
    case (recover a)
    with p assms(2)[of a] show ?thesis by blast
  qed
qed

lemma final_nonempty:
  assumes "valid_leaves t" and "\<And>a. mra = Some a \<Longrightarrow> a \<noteq> {}"
  shows "final mra t \<noteq> {}"
proof -
  have p: "prelim t \<noteq> {}" by (rule prelim_nonempty[OF assms(1)])
  show ?thesis
  proof (cases rule: final_cases[of mra t])
    case keep
    with p show ?thesis by simp
  next
    case (adopt a)
    with assms(2)[of a] show ?thesis by blast
  next
    case (widen a)
    with p show ?thesis by blast
  next
    case (recover a)
    with p show ?thesis by blast
  qed
qed

lemma card_le_one_cases:
  assumes "finite A" and "card A \<le> 1"
  shows "A = {} \<or> (\<exists>x. A = {x})"
proof (cases "card A = 0")
  case True
  with assms(1) show ?thesis by simp
next
  case False
  with assms(2) have "card A = 1" by simp
  then show ?thesis by (simp add: card_1_singleton_iff)
qed

lemma final_within_prelim:
  assumes "valid_leaves t" and "card (final mra t) \<le> 1"
    and "\<And>a. mra = Some a \<Longrightarrow> a \<subseteq> {0, 1}"
  shows "final mra t \<subseteq> prelim t"
proof -
  have p: "prelim t \<noteq> {}" by (rule prelim_nonempty[OF assms(1)])
  have "final mra t \<subseteq> {0, 1}" using final_binary[OF assms(1)] assms(3) by blast
  then have fin: "finite (final mra t)" by (rule finite_subset) simp
  have sub: "final mra t \<subseteq> prelim t" if a: "prelim t \<subseteq> final mra t"
  proof -
    from card_le_one_cases[OF fin assms(2)] a p obtain x where x: "final mra t = {x}" by auto
    with a p have "prelim t = {x}" by (simp add: subset_singleton_iff)
    with x show ?thesis by simp
  qed
  show ?thesis
  proof (cases rule: final_cases[of mra t])
    case keep
    then show ?thesis by simp
  next
    case (adopt a)
    then show ?thesis by blast
  next
    case (widen a)
    then have "prelim t \<subseteq> final mra t" by blast
    then show ?thesis by (rule sub)
  next
    case (recover a)
    then have "prelim t \<subseteq> final mra t" by blast
    then show ?thesis by (rule sub)
  qed
qed

lemma child_final_eq:
  assumes "valid_leaves c" and "children c = [] \<or> card (final (Some {w}) c) \<le> 1"
    and "w \<in> {0, 1}"
  shows "final (Some {w}) c = {w} \<longleftrightarrow> w \<in> prelim c"
proof (cases "children c = []")
  case True
  obtain nm d st op g l cs where c: "c = Node nm d st op g l cs" by (cases c)
  with True assms(1) show ?thesis by (auto simp: final_leaf)
next
  case False
  with assms(2) have card: "card (final (Some {w}) c) \<le> 1" by simp
  show ?thesis
  proof
    assume "final (Some {w}) c = {w}"
    moreover have "final (Some {w}) c \<subseteq> prelim c"
      using final_within_prelim[OF assms(1) card] assms(3) by blast
    ultimately show "w \<in> prelim c" by blast
  next
    assume "w \<in> prelim c"
    then have "{w} \<subseteq> prelim c" by simp
    from final_sub[OF False this] \<open>w \<in> prelim c\<close> show "final (Some {w}) c = {w}" by blast
  qed
qed

lemma outside_count_binary:
  assumes "valid_leaves (Node nm d st op g l cs)" and "length cs \<le> 2" and "cs \<noteq> []"
    and "w \<in> prelim (Node nm d st op g l cs)"
  shows "length (filter (\<lambda>c. w \<notin> prelim c) cs) = (if is_union (Node nm d st op g l cs) then 1 else 0)"
proof -
  consider (one) c where "cs = [c]" | (two) c1 c2 where "cs = [c1, c2]"
    using assms(2,3) by (cases cs; cases "tl cs"; cases "tl (tl cs)") auto
  then show ?thesis
  proof cases
    case one
    with assms(1) have "prelim c \<noteq> {}" using prelim_nonempty by simp
    with one assms(4) show ?thesis by (simp add: is_union_def)
  next
    case two
    show ?thesis
    proof (cases "prelim c1 \<inter> prelim c2 = {}")
      case True
      with assms(4) two have "w \<in> prelim c1 \<union> prelim c2" by simp
      with True have "(w \<in> prelim c1 \<and> w \<notin> prelim c2) \<or> (w \<notin> prelim c1 \<and> w \<in> prelim c2)"
        by blast
      with True two show ?thesis by (auto simp: is_union_def)
    next
      case False
      with assms(4) two have "w \<in> prelim c1 \<and> w \<in> prelim c2" by simp
      with False two show ?thesis by (simp add: is_union_def)
    qed
  qed
qed

subsection \<open>The annotation of an unambiguous tree\<close>

lemma annotate_children_sum:
  assumes "\<And>c. c \<in> set cs \<Longrightarrow> \<exists>tr. annotate_from (Some s) (f c) = Inr tr \<and> events tr = k c"
  shows "\<exists>trs. annotate_children s (map f cs) = Inr trs
           \<and> sum_list (map events trs) = sum_list (map k cs)"
  using assms
proof (induction cs)
  case Nil
  then show ?case by simp
next
  case (Cons c cs)
  from Cons.prems[of c] obtain tr where tr: "annotate_from (Some s) (f c) = Inr tr" "events tr = k c"
    by auto
  from Cons.IH Cons.prems obtain trs where trs: "annotate_children s (map f cs) = Inr trs"
    "sum_list (map events trs) = sum_list (map k cs)" by auto
  from tr trs show ?case by simp
qed

lemma flag_count_differs:
  assumes "w \<in> {0, 1}" and "s \<subseteq> {0, 1}" and "s \<noteq> {}" and "card s \<le> 1"
  shows "flag_count (Some {w}) s = (if s = {w} then 0 else 1)"
proof -
  from assms(2) have "finite s" by (rule finite_subset) simp
  from card_le_one_cases[OF this assms(4)] assms(3) obtain x where x: "s = {x}" by auto
  with assms(2) have "x = 0 \<or> x = 1" by simp
  with assms(1) x show ?thesis by (auto simp: flag_count_def)
qed

lemma unambiguous_events:
  assumes "valid_leaves t" and "binary t" and "ambiguous_names mra t = []"
    and "mra = None \<or> (\<exists>w\<in>{0, 1}. mra = Some {w})"
  shows "\<exists>tr. annotate_from up (pass2_tree mra t) = Inr tr
           \<and> events tr = flag_count up (final mra t) + unions t
           \<and> state tr = Some (final mra t)"
  using assms
proof (induction t arbitrary: mra up)
  case (Node nm d st op g l cs)
  let ?t = "Node nm d st op g l cs"
  let ?u = "final mra ?t"
  show ?case
  proof (cases "cs = []")
    case True
    with Node.prems(1) obtain s where st: "st = Some s" by auto
    with True show ?thesis by (auto simp: final_leaf flag_count_def is_union_def)
  next
    case False
    from Node.prems(4) have mra_bin: "\<And>a. mra = Some a \<Longrightarrow> a \<subseteq> {0, 1}"
      and mra_ne: "\<And>a. mra = Some a \<Longrightarrow> a \<noteq> {}" by auto
    from Node.prems(3) False have card: "card ?u \<le> 1"
      and sub: "\<forall>c\<in>set cs. ambiguous_names (Some ?u) c = []"
      by (auto split: if_splits simp del: prelim.simps)
    have ubin: "?u \<subseteq> {0, 1}" by (rule final_binary[OF Node.prems(1) mra_bin])
    have une: "?u \<noteq> {}" by (rule final_nonempty[OF Node.prems(1) mra_ne])
    from ubin have "finite ?u" by (rule finite_subset) simp
    from card_le_one_cases[OF this card] une obtain w where w: "?u = {w}" by auto
    with ubin have w01: "w \<in> {0, 1}" by auto
    have wpre: "w \<in> prelim ?t"
      using final_within_prelim[OF Node.prems(1) card mra_bin] w by auto
    from Node.prems(1,2) False have vl: "\<forall>c\<in>set cs. valid_leaves c"
      and bin: "\<forall>c\<in>set cs. binary c" and len: "length cs \<le> 2"
      by (auto simp: list_all_iff)
    let ?k = "\<lambda>c. (if w \<in> prelim c then 0 else 1) + unions c"
    have child: "\<exists>tr. annotate_from (Some ?u) (pass2_tree (Some ?u) c) = Inr tr \<and> events tr = ?k c"
      if c: "c \<in> set cs" for c
    proof -
      from sub c have amb: "ambiguous_names (Some ?u) c = []" by simp
      from Node.IH[OF c _ _ amb, of "Some ?u"] vl bin c w w01
      obtain tr where tr: "annotate_from (Some ?u) (pass2_tree (Some ?u) c) = Inr tr"
        "events tr = flag_count (Some ?u) (final (Some ?u) c) + unions c" by auto
      have cbin: "final (Some ?u) c \<subseteq> {0, 1}"
        using final_binary[of c "Some ?u"] vl c ubin by auto
      have cne: "final (Some ?u) c \<noteq> {}"
        using final_nonempty[of c "Some ?u"] vl c une by auto
      have ccard: "children c = [] \<or> card (final (Some {w}) c) \<le> 1"
      proof (cases "children c = []")
        case True then show ?thesis by simp
      next
        case ne: False
        obtain nm' d' st' op' g' l' cs' where c': "c = Node nm' d' st' op' g' l' cs'" by (cases c)
        with ne amb w show ?thesis by (auto split: if_splits simp del: prelim.simps)
      qed
      have ccard': "card (final (Some {w}) c) \<le> 1"
      proof (cases "children c = []")
        case True
        obtain nm' d' st' op' g' l' cs' where c': "c = Node nm' d' st' op' g' l' cs'" by (cases c)
        moreover from vl \<open>c \<in> set cs\<close> have "valid_leaves c" by simp
        ultimately show ?thesis using True by (auto simp: final_leaf)
      next
        case False with ccard show ?thesis by simp
      qed
      have "flag_count (Some {w}) (final (Some {w}) c) = (if final (Some {w}) c = {w} then 0 else 1)"
        using flag_count_differs[OF w01 _ _ ccard'] cbin cne w by simp
      also have "\<dots> = (if w \<in> prelim c then 0 else 1)"
        using child_final_eq[OF _ ccard w01] vl c by simp
      finally show ?thesis using tr w by auto
    qed
    from annotate_children_sum[of cs ?u "pass2_tree (Some ?u)" ?k] child
    obtain trs where trs: "annotate_children ?u (map (pass2_tree (Some ?u)) cs) = Inr trs"
      "sum_list (map events trs) = sum_list (map ?k cs)" by auto
    have "sum_list (map ?k cs) = length (filter (\<lambda>c. w \<notin> prelim c) cs) + sum_list (map unions cs)"
      by (induction cs) auto
    also have "length (filter (\<lambda>c. w \<notin> prelim c) cs) = (if is_union ?t then 1 else 0)"
      by (rule outside_count_binary[OF Node.prems(1) len False wpre])
    finally have total: "sum_list (map ?k cs) = unions ?t" by simp
    show ?thesis
      using False trs total
      by (simp add: flag_count_def del: prelim.simps)
  qed
qed

subsection \<open>The tally of a candidate\<close>

lemma resolved_eff: "resolved ns n \<Longrightarrow> effective_state ns n = Inr (eff ns n)"
  by (cases n) (auto simp: eff_def)

lemma resolved_eff01: "resolved ns n \<Longrightarrow> eff ns n = 0 \<or> eff ns n = 1"
  by (cases n) (auto simp: eff_def)

lemma classify_children_pure:
  "list_all (resolved ns) cs \<Longrightarrow>
     classify_children ns v cs (tot, G, L) =
       Inr (tot + length (child_gains ns v cs) + length (child_losses ns v cs),
            G \<union> set (child_gains ns v cs), L \<union> set (child_losses ns v cs))"
proof (induction cs arbitrary: tot G L)
  case Nil
  then show ?case by (simp add: child_gains_def child_losses_def)
next
  case (Cons c cs)
  from Cons.prems have e: "effective_state ns c = Inr (eff ns c)" and rest: "list_all (resolved ns) cs"
    by (auto simp: resolved_eff)
  show ?case
    using e Cons.IH[OF rest]
    by (auto simp: child_gains_def child_losses_def)
qed

lemma count_changes_pure:
  "resolved ns n \<Longrightarrow>
     count_changes ns r n acc =
       Inr (fst acc + length (gain_names ns r n) + length (loss_names ns n),
            fst (snd acc) \<union> set (gain_names ns r n), snd (snd acc) \<union> set (loss_names ns n))"
  "list_all (resolved ns) ns' \<Longrightarrow>
     count_changes_list ns ns' acc =
       Inr (fst acc + length (concat (map (gain_names ns False) ns'))
              + length (concat (map (loss_names ns) ns')),
            fst (snd acc) \<union> set (concat (map (gain_names ns False) ns')),
            snd (snd acc) \<union> set (concat (map (loss_names ns) ns')))"
proof (induction ns r n acc and ns ns' acc rule: count_changes_count_changes_list.induct)
  case (1 node_state is_root nm d st op g l cs acc)
  let ?n = "Node nm d st op g l cs"
  show ?case
  proof (cases "cs = []")
    case True
    then show ?thesis by simp
  next
    case False
    from "1.prems" have e: "effective_state node_state ?n = Inr (eff node_state ?n)"
      by (rule resolved_eff)
    from "1.prems" have ch: "list_all (resolved node_state) cs" by simp
    let ?acc1 = "if is_root \<and> eff node_state ?n = 1
                 then (fst acc + 1, insert nm (fst (snd acc)), snd (snd acc)) else acc"
    obtain tot G L where acc1: "?acc1 = (tot, G, L)" by (cases ?acc1) auto
    have cl: "classify_children node_state (eff node_state ?n) cs ?acc1 =
       Inr (tot + length (child_gains node_state (eff node_state ?n) cs)
              + length (child_losses node_state (eff node_state ?n) cs),
            G \<union> set (child_gains node_state (eff node_state ?n) cs),
            L \<union> set (child_losses node_state (eff node_state ?n) cs))"
      unfolding acc1 by (rule classify_children_pure[OF ch])
    note ih = "1.IH"[OF False e cl ch]
    show ?thesis
      apply (subst count_changes.simps)
      apply (simp only: False if_False e sum.case cl ih)
      using acc1 False
      by (auto split: if_splits)
  qed
next
  case (2 node_state acc)
  then show ?case by simp
next
  case (3 node_state c cs acc)
  from "3.prems" have c: "resolved node_state c" and cs: "list_all (resolved node_state) cs" by auto
  note ih1 = "3.IH"(1)[OF c]
  note ih2 = "3.IH"(2)[OF ih1 cs]
  show ?case
    apply (subst count_changes_list.simps)
    apply (simp only: ih1 sum.case ih2)
    by (auto simp: add.assoc)
qed

subsection \<open>Events and node names\<close>

lemma child_events_names:
  "mset (child_gains ns v cs) + mset (child_losses ns v cs) \<subseteq># mset (map name cs)"
proof (induction cs)
  case Nil
  then show ?case by (simp add: child_gains_def child_losses_def)
next
  case (Cons c cs)
  then show ?case
    by (auto simp: child_gains_def child_losses_def intro: subset_mset.order_trans)
qed

lemma sum_names_inclusion:
  assumes "\<And>c. c \<in> set cs \<Longrightarrow>
             mset (gain_names ns False c) + mset (loss_names ns c) + {#name c#} \<subseteq># mset (node_names c)"
  shows "mset (concat (map (gain_names ns False) cs)) + mset (concat (map (loss_names ns) cs))
           + mset (map name cs) \<subseteq># mset (concat (map node_names cs))"
  using assms
proof (induction cs)
  case Nil
  then show ?case by simp
next
  case (Cons c cs)
  have 1: "mset (gain_names ns False c) + mset (loss_names ns c) + {#name c#} \<subseteq># mset (node_names c)"
    using Cons.prems by simp
  have 2: "mset (concat (map (gain_names ns False) cs)) + mset (concat (map (loss_names ns) cs))
           + mset (map name cs) \<subseteq># mset (concat (map node_names cs))"
    using Cons by simp
  from subset_mset.add_mono[OF 1 2] show ?case by (simp add: ac_simps)
qed

lemma names_inclusion_below:
  "mset (gain_names ns False n) + mset (loss_names ns n) + {#name n#} \<subseteq># mset (node_names n)"
proof (induction n)
  case (Node nm d st op g l cs)
  show ?case
  proof (cases "cs = []")
    case True
    then show ?thesis by simp
  next
    case False
    let ?v = "eff ns (Node nm d st op g l cs)"
    have below: "mset (concat (map (gain_names ns False) cs)) + mset (concat (map (loss_names ns) cs))
           + mset (map name cs) \<subseteq># mset (concat (map node_names cs))"
      by (rule sum_names_inclusion) (rule Node.IH)
    have "mset (concat (map (gain_names ns False) cs)) + mset (concat (map (loss_names ns) cs))
           + (mset (child_gains ns ?v cs) + mset (child_losses ns ?v cs))
          \<subseteq># mset (concat (map (gain_names ns False) cs)) + mset (concat (map (loss_names ns) cs))
           + mset (map name cs)"
      using child_events_names[of ns ?v cs] by (simp only: subset_mset.add_left_mono)
    from this below have "mset (concat (map (gain_names ns False) cs)) + mset (concat (map (loss_names ns) cs))
           + (mset (child_gains ns ?v cs) + mset (child_losses ns ?v cs))
          \<subseteq># mset (concat (map node_names cs))"
      by (rule subset_mset.order_trans)
    with False show ?thesis by (simp add: ac_simps)
  qed
qed

lemma names_inclusion:
  "mset (gain_names ns r n) + mset (loss_names ns n) \<subseteq># mset (node_names n)"
proof -
  obtain nm d st op g l cs where n: "n = Node nm d st op g l cs" by (cases n)
  have b: "mset (gain_names ns False n) + mset (loss_names ns n) + {#name n#} \<subseteq># mset (node_names n)"
    by (rule names_inclusion_below)
  have "gain_names ns r n = gain_names ns False n \<or> gain_names ns r n = name n # gain_names ns False n"
    unfolding n by simp
  then show ?thesis
  proof
    assume "gain_names ns r n = gain_names ns False n"
    with b show ?thesis
      by (metis subset_mset.add_decreasing2 subset_mset.order_trans mset_subset_eq_add_left empty_le)
  next
    assume "gain_names ns r n = name n # gain_names ns False n"
    with b show ?thesis by (simp add: ac_simps)
  qed
qed

lemma distinct_sub_mset:
  assumes "mset xs \<subseteq># mset ys" and "distinct ys"
  shows "distinct xs" and "set xs \<subseteq> set ys"
proof -
  show "distinct xs"
    unfolding distinct_count_atmost_1
  proof (intro allI)
    fix a
    have "count (mset xs) a \<le> count (mset ys) a" using assms(1) by (rule mset_subset_eq_count)
    also have "\<dots> \<le> 1" using assms(2) by (simp add: distinct_count_atmost_1)
    finally have le: "count (mset xs) a \<le> 1" .
    show "count (mset xs) a = (if a \<in> set xs then 1 else 0)"
    proof (cases "a \<in> set xs")
      case True
      then have "count (mset xs) a \<noteq> 0" by (simp add: count_mset_0_iff)
      with le have "count (mset xs) a = 1" by linarith
      with True show ?thesis by simp
    next
      case False
      then show ?thesis by (simp add: count_mset_0_iff)
    qed
  qed
  show "set xs \<subseteq> set ys" using assms(1) by (metis set_mset_mono set_mset_mset)
qed

lemma events_annotate_assigned:
  "flags_clear n \<Longrightarrow>
     events (annotate_assigned ns G L n) =
       length (filter (\<lambda>x. x \<in> G) (node_names n)) + length (filter (\<lambda>x. x \<in> L) (node_names n))"
proof (induction n)
  case (Node nm d st op g l cs)
  have ih: "\<And>c. c \<in> set cs \<Longrightarrow> events (annotate_assigned ns G L c) =
       length (filter (\<lambda>x. x \<in> G) (node_names c)) + length (filter (\<lambda>x. x \<in> L) (node_names c))"
    using Node by (auto simp: list_all_iff)
  have "sum_list (map (events \<circ> annotate_assigned ns G L) cs) =
        length (filter (\<lambda>x. x \<in> G) (concat (map node_names cs)))
        + length (filter (\<lambda>x. x \<in> L) (concat (map node_names cs)))"
    using ih by (induction cs) auto
  with Node.prems show ?case by simp
qed

lemma flags_clear_pass2: "flags_clear (pass2_tree mra t)"
  by (induction t arbitrary: mra) (auto simp: list_all_iff)

lemma node_names_pass2: "node_names (pass2_tree mra t) = node_names t"
proof (induction t arbitrary: mra)
  case (Node nm d st op g l cs)
  have eq: "map (node_names \<circ> pass2_tree a) cs = map node_names cs" for a
    using Node by simp
  show ?case by (simp add: eq)
qed

lemma accepted_events:
  assumes "distinct (node_names n)" and "flags_clear n"
  shows "events (annotate_assigned ns (set (gain_names ns r n)) (set (loss_names ns n)) n)
           = length (gain_names ns r n) + length (loss_names ns n)"
proof -
  let ?G = "gain_names ns r n" and ?L = "loss_names ns n"
  have incl: "mset (?G @ ?L) \<subseteq># mset (node_names n)"
    using names_inclusion[of ns r n] by simp
  from distinct_sub_mset[OF incl assms(1)] have d: "distinct (?G @ ?L)"
    and s: "set (?G @ ?L) \<subseteq> set (node_names n)" by auto
  have "length (filter (\<lambda>x. x \<in> set ?G) (node_names n)) = card (set ?G)"
    using s assms(1) by (simp add: distinct_length_filter Int_absorb2)
  moreover have "length (filter (\<lambda>x. x \<in> set ?L) (node_names n)) = card (set ?L)"
    using s assms(1) by (simp add: distinct_length_filter Int_absorb2)
  moreover have "card (set ?G) = length ?G" "card (set ?L) = length ?L"
    using d by (auto simp: distinct_card)
  ultimately show ?thesis
    using events_annotate_assigned[OF assms(2)] by simp
qed

subsection \<open>Candidates of the enumeration\<close>

lemma mra_ok_None: "mra_ok None"
  by (simp add: mra_ok_def)

lemma mra_ok_final: "valid_leaves t \<Longrightarrow> mra_ok mra \<Longrightarrow> mra_ok (Some (final mra t))"
  using final_binary[of t mra] final_nonempty[of t mra] by (auto simp: mra_ok_def)

lemma unpack_singleton: "unpack_state (Some {w}) = Inr w"
  by (simp add: unpack_state_def)

lemma resolved_pass2:
  assumes "valid_leaves t" and "mra_ok mra" and "set (ambiguous_names mra t) \<subseteq> dom ns"
    and "ran ns \<subseteq> {0, 1}"
  shows "resolved ns (pass2_tree mra t)"
  using assms
proof (induction t arbitrary: mra)
  case (Node nm d st op g l cs)
  let ?t = "Node nm d st op g l cs"
  let ?u = "final mra ?t"
  have ubin: "?u \<subseteq> {0, 1}" and une: "?u \<noteq> {}"
    using final_binary[OF Node.prems(1), of mra] final_nonempty[OF Node.prems(1), of mra] Node.prems(2)
    by (auto simp: mra_ok_def)
  have own: "effective_state ns (pass2_tree mra ?t) = Inr 0 \<or> effective_state ns (pass2_tree mra ?t) = Inr 1"
  proof (cases "ns nm")
    case (Some v)
    then have "v \<in> ran ns" by (auto simp: ran_def)
    with Node.prems(4) have "v = 0 \<or> v = 1" by auto
    with Some show ?thesis by (auto simp: effective_state_def)
  next
    case None
    have card: "card ?u \<le> 1"
    proof (cases "cs = []")
      case True
      with Node.prems(1) show ?thesis by (auto simp: final_leaf)
    next
      case False
      from None have "nm \<notin> dom ns" by auto
      with Node.prems(3) have nin: "nm \<notin> set (ambiguous_names mra ?t)" by blast
      show ?thesis
      proof (rule ccontr)
        assume "\<not> card ?u \<le> 1"
        then have "card ?u > 1" by simp
        with False have "nm \<in> set (ambiguous_names mra ?t)" by (simp del: prelim.simps)
        with nin show False by simp
      qed
    qed
    from ubin have "finite ?u" by (rule finite_subset) simp
    from card_le_one_cases[OF this card] une obtain w where w: "?u = {w}" by auto
    with ubin have w01: "w = 0 \<or> w = 1" by auto
    have "state (pass2_tree mra ?t) = Some {w}"
      using state_pass2_tree[OF valid_leaves_present[OF Node.prems(1)], of mra] w by simp
    moreover have "name (pass2_tree mra ?t) = nm" by simp
    ultimately have "effective_state ns (pass2_tree mra ?t) = Inr w"
      using None by (simp add: effective_state_def unpack_singleton del: pass2_tree.simps)
    with w01 show ?thesis by auto
  qed
  have kids: "list_all (resolved ns) (map (pass2_tree (Some ?u)) cs)" if "cs \<noteq> []"
  proof -
    have "resolved ns (pass2_tree (Some ?u) c)" if c: "c \<in> set cs" for c
    proof (rule Node.IH[OF c])
      show "valid_leaves c" using Node.prems(1) c \<open>cs \<noteq> []\<close> by (auto simp: list_all_iff)
      show "mra_ok (Some ?u)" by (rule mra_ok_final[OF Node.prems(1,2)])
      show "set (ambiguous_names (Some ?u) c) \<subseteq> dom ns"
        using Node.prems(3) c \<open>cs \<noteq> []\<close> by (auto simp del: prelim.simps)
      show "ran ns \<subseteq> {0, 1}" by (rule Node.prems(4))
    qed
    then show ?thesis by (simp add: list_all_iff)
  qed
  show ?case
  proof (cases "cs = []")
    case True
    with own show ?thesis by simp
  next
    case False
    with own kids[OF False] show ?thesis by (simp del: prelim.simps)
  qed
qed

lemma combinations_props:
  "ts \<in> set (combinations xs r) \<Longrightarrow> set ts \<subseteq> set xs \<and> length ts = r"
proof (induction xs r arbitrary: ts rule: combinations.induct)
  case (1 xs)
  then show ?case by simp
next
  case (2 r)
  then show ?case by simp
next
  case (3 x xs r)
  from "3.prems" consider (hd) us where "ts = x # us" "us \<in> set (combinations xs r)"
    | (tl) "ts \<in> set (combinations xs (Suc r))" by auto
  then show ?case
  proof cases
    case hd
    with "3.IH"(1)[of us] show ?thesis by auto
  next
    case tl
    with "3.IH"(2)[of ts] show ?thesis by auto
  qed
qed

lemma node_state_of_dom_aux:
  "dom (foldl (\<lambda>m (node, st). m(snd node \<mapsto> st)) m0 ts) = dom m0 \<union> (snd \<circ> fst) ` set ts"
  by (induction ts arbitrary: m0) (auto split: prod.splits)

lemma node_state_of_ran_aux:
  "ran (foldl (\<lambda>m (node, st). m(snd node \<mapsto> st)) m0 ts) \<subseteq> ran m0 \<union> snd ` set ts"
proof (induction ts arbitrary: m0)
  case Nil
  then show ?case by simp
next
  case (Cons x ts)
  obtain node st where x: "x = (node, st)" by (cases x)
  let ?f = "\<lambda>m (node, st). m(snd node \<mapsto> st)"
  let ?m1 = "m0(snd node \<mapsto> st)"
  have 1: "ran ?m1 \<subseteq> ran m0 \<union> {st}"
    by (auto simp: ran_def split: if_splits)
  have 2: "ran (foldl ?f ?m1 ts) \<subseteq> ran ?m1 \<union> snd ` set ts" by (rule Cons.IH)
  have 3: "foldl ?f m0 (x # ts) = foldl ?f ?m1 ts" unfolding x by simp
  have 4: "snd ` set (x # ts) = insert st (snd ` set ts)" unfolding x by simp
  from 1 2 show ?case unfolding 3 4 by blast
qed

lemma candidate_node_state:
  assumes "amb_ok names amb" and "ts \<in> set (combinations amb (card (set (map fst amb))))"
    and "unique_nodes ts"
  shows "dom (node_state_of ts) = set names" and "ran (node_state_of ts) \<subseteq> {0, 1}"
proof -
  from combinations_props[OF assms(2)] have sub: "set ts \<subseteq> set amb"
    and len: "length ts = card (set (map fst amb))" by auto
  from assms(3) len have "card (set (map fst ts)) = card (set (map fst amb))"
    by (simp add: unique_nodes_def)
  moreover from sub have "set (map fst ts) \<subseteq> set (map fst amb)" by auto
  ultimately have eq: "set (map fst ts) = set (map fst amb)"
    by (simp add: card_subset_eq)
  have "dom (node_state_of ts) = (snd \<circ> fst) ` set ts"
    by (simp add: node_state_of_def node_state_of_dom_aux)
  also have "\<dots> = snd ` set (map fst ts)" by (simp add: image_comp)
  also have "\<dots> = snd ` set (map fst amb)" by (simp only: eq)
  also have "\<dots> = set names" using assms(1) by (simp add: amb_ok_def image_comp)
  finally show "dom (node_state_of ts) = set names" .
  have "ran (node_state_of ts) \<subseteq> snd ` set ts"
    using node_state_of_ran_aux[of Map.empty ts] by (simp add: node_state_of_def)
  also have "\<dots> \<subseteq> snd ` set amb" using sub by auto
  also have "\<dots> \<subseteq> {0, 1}" using assms(1) by (simp add: amb_ok_def)
  finally show "ran (node_state_of ts) \<subseteq> {0, 1}" .
qed

lemma resolve_pure:
  assumes "\<And>ts. ts \<in> set cands \<Longrightarrow> unique_nodes ts \<Longrightarrow> resolved (node_state_of ts) tree"
  shows "resolve tree m cands = Inr (map (accepted_tree tree) (filter (accepts tree m) cands))"
  using assms
proof (induction cands)
  case Nil
  then show ?case by simp
next
  case (Cons ts cands)
  have ih: "resolve tree m cands = Inr (map (accepted_tree tree) (filter (accepts tree m) cands))"
    using Cons by simp
  show ?case
  proof (cases "unique_nodes ts")
    case False
    then have "\<not> accepts tree m ts" by (simp add: accepts_def)
    with ih False show ?thesis by simp
  next
    case True
    then have acc: "accepts tree m ts \<longleftrightarrow>
      length (gain_names (node_state_of ts) True tree) + length (loss_names (node_state_of ts) tree) = m"
      by (simp add: accepts_def)
    from Cons.prems[of ts] True have "resolved (node_state_of ts) tree" by simp
    from count_changes_pure(1)[OF this, of True "(0, {}, {})"] True ih
    show ?thesis by (simp add: acc accepted_tree_def)
  qed
qed

subsection \<open>Accepted candidates are assignments\<close>

lemma unpack_state_Inr: "unpack_state st = Inr w \<Longrightarrow> st = Some {w}"
  by (auto simp: unpack_state_def card_1_singleton_iff split: option.splits if_splits)

lemma state_annotate_assigned:
  assumes "resolved ns n"
  shows "state (annotate_assigned ns G L n) = Some {eff ns n}"
proof -
  obtain nm d st op g l cs where n: "n = Node nm d st op g l cs" by (cases n)
  show ?thesis
  proof (cases "ns nm")
    case (Some v)
    then show ?thesis unfolding n by (simp add: eff_def effective_state_def)
  next
    case None
    from resolved_eff[OF assms] None have "unpack_state st = Inr (eff ns n)"
      unfolding n by (simp add: effective_state_def)
    from unpack_state_Inr[OF this] None show ?thesis unfolding n by simp
  qed
qed

lemma child_events_length:
  assumes "list_all (resolved ns) cs" and "v = 0 \<or> v = 1"
  shows "length (child_gains ns v cs) + length (child_losses ns v cs)
           = length (filter (\<lambda>c. eff ns c \<noteq> v) cs)"
  using assms(1)
proof (induction cs)
  case Nil
  then show ?case by (simp add: child_gains_def child_losses_def)
next
  case (Cons c cs)
  from Cons.prems have "eff ns c = 0 \<or> eff ns c = 1" by (simp add: resolved_eff01)
  with Cons assms(2) show ?case by (auto simp: child_gains_def child_losses_def)
qed

lemma differing_children:
  "list_all (resolved ns) cs \<Longrightarrow>
     length (filter (\<lambda>c'. state c' \<noteq> Some {v}) (map (annotate_assigned ns G L) cs))
       = length (filter (\<lambda>c. eff ns c \<noteq> v) cs)"
proof (induction cs)
  case Nil
  then show ?case by simp
next
  case (Cons c cs)
  from Cons.prems have "state (annotate_assigned ns G L c) = Some {eff ns c}"
    by (simp add: state_annotate_assigned)
  with Cons show ?case by simp
qed

lemma transitions_annotate_assigned:
  "resolved ns n \<Longrightarrow>
     transitions (annotate_assigned ns G L n) = length (gain_names ns False n) + length (loss_names ns n)"
proof (induction n)
  case (Node nm d st op g l cs)
  let ?n = "Node nm d st op g l cs"
  let ?ann = "annotate_assigned ns G L"
  from Node.prems have kids: "list_all (resolved ns) cs" by simp
  have v01: "eff ns ?n = 0 \<or> eff ns ?n = 1" by (rule resolved_eff01[OF Node.prems])
  have st: "state (?ann ?n) = Some {eff ns ?n}" by (rule state_annotate_assigned[OF Node.prems])
  have "length (filter (\<lambda>c'. state c' \<noteq> Some {eff ns ?n}) (map ?ann cs))
          = length (filter (\<lambda>c. eff ns c \<noteq> eff ns ?n) cs)"
    by (rule differing_children[OF kids])
  also have "\<dots> = length (child_gains ns (eff ns ?n) cs) + length (child_losses ns (eff ns ?n) cs)"
    by (rule child_events_length[OF kids v01, symmetric])
  finally have edges: "length (filter (\<lambda>c'. state c' \<noteq> Some {eff ns ?n}) (map ?ann cs))
     = length (child_gains ns (eff ns ?n) cs) + length (child_losses ns (eff ns ?n) cs)" .
  have ih: "\<And>c. c \<in> set cs \<Longrightarrow> transitions (?ann c)
              = length (gain_names ns False c) + length (loss_names ns c)"
    using Node.IH kids by (simp add: list_all_iff)
  have below: "sum_list (map transitions (map ?ann cs))
          = length (concat (map (gain_names ns False) cs)) + length (concat (map (loss_names ns) cs))"
    using ih by (induction cs) auto
  have "transitions (?ann ?n)
          = length (filter (\<lambda>c'. state c' \<noteq> state (?ann ?n)) (map ?ann cs))
            + sum_list (map transitions (map ?ann cs))"
    by simp
  also have "\<dots> = length (child_gains ns (eff ns ?n) cs) + length (child_losses ns (eff ns ?n) cs)
            + (length (concat (map (gain_names ns False) cs)) + length (concat (map (loss_names ns) cs)))"
    unfolding st edges below ..
  finally show ?case
    by (cases "cs = []") (simp_all add: child_gains_def child_losses_def)
qed

lemma singleton_assignment_annotated:
  assumes "valid_leaves t" and "resolved ns (pass2_tree mra t)"
    and "set (get_leaf_names t) \<inter> dom ns = {}"
  shows "singleton_assignment (annotate_assigned ns G L (pass2_tree mra t)) t"
  using assms
proof (induction t arbitrary: mra)
  case (Node nm d st op g l cs)
  let ?t = "Node nm d st op g l cs"
  show ?case
  proof (cases "cs = []")
    case True
    with Node.prems(3) have "ns nm = None" by auto
    with True Node.prems(1) show ?thesis by auto
  next
    case False
    let ?u = "final mra ?t"
    have st: "state (annotate_assigned ns G L (pass2_tree mra ?t)) = Some {eff ns (pass2_tree mra ?t)}"
      by (rule state_annotate_assigned[OF Node.prems(2)])
    have kids: "singleton_assignment (annotate_assigned ns G L (pass2_tree (Some ?u) c)) c"
      if c: "c \<in> set cs" for c
    proof (rule Node.IH[OF c])
      show "valid_leaves c" using Node.prems(1) c False by (auto simp: list_all_iff)
      show "resolved ns (pass2_tree (Some ?u) c)"
        using Node.prems(2) c False by (auto simp: list_all_iff simp del: prelim.simps)
      show "set (get_leaf_names c) \<inter> dom ns = {}"
        using Node.prems(3) c False by auto
    qed
    have all2: "list_all2 singleton_assignment
                  (map (annotate_assigned ns G L) (map (pass2_tree (Some ?u)) cs)) cs"
      using kids by (simp add: list_all2_map1 list.rel_refl_strong)
    from st have "case state (annotate_assigned ns G L (pass2_tree mra ?t)) of
                    None \<Rightarrow> False | Some s \<Rightarrow> card s = 1" by simp
    with False all2 show ?thesis by (simp del: prelim.simps)
  qed
qed

lemma concat_mset_inclusion:
  assumes "\<And>c. c \<in> set cs \<Longrightarrow> mset (f c) + mset (g c) \<subseteq># mset (h c)"
  shows "mset (concat (map f cs)) + mset (concat (map g cs)) \<subseteq># mset (concat (map h cs))"
  using assms
proof (induction cs)
  case Nil
  then show ?case by simp
next
  case (Cons c cs)
  have 1: "mset (f c) + mset (g c) \<subseteq># mset (h c)" using Cons.prems by simp
  have 2: "mset (concat (map f cs)) + mset (concat (map g cs)) \<subseteq># mset (concat (map h cs))"
    using Cons by simp
  from subset_mset.add_mono[OF 1 2] show ?case by (simp add: ac_simps)
qed

lemma ambiguous_leaf_names:
  "mset (ambiguous_names mra t) + mset (get_leaf_names t) \<subseteq># mset (node_names t)"
proof (induction t arbitrary: mra)
  case (Node nm d st op g l cs)
  let ?t = "Node nm d st op g l cs"
  show ?case
  proof (cases "cs = []")
    case True
    then show ?thesis by simp
  next
    case False
    have below: "mset (concat (map (ambiguous_names (Some (final mra ?t))) cs))
                   + mset (concat (map get_leaf_names cs)) \<subseteq># mset (concat (map node_names cs))"
      by (rule concat_mset_inclusion) (rule Node.IH)
    show ?thesis
    proof (cases "card (final mra ?t) > 1")
      case True
      with False below show ?thesis by (simp del: prelim.simps)
    next
      case nc: False
      from below have "mset (concat (map (ambiguous_names (Some (final mra ?t))) cs))
                   + mset (concat (map get_leaf_names cs)) \<subseteq># add_mset nm (mset (concat (map node_names cs)))"
        by (rule subset_mset.order_trans) simp
      with False nc show ?thesis by (simp del: prelim.simps)
    qed
  qed
qed

lemma ambiguous_not_leaf:
  assumes "distinct (node_names t)"
  shows "set (get_leaf_names t) \<inter> set (ambiguous_names mra t) = {}"
proof -
  have "mset (ambiguous_names mra t @ get_leaf_names t) \<subseteq># mset (node_names t)"
    using ambiguous_leaf_names[of mra t] by simp
  from distinct_sub_mset(1)[OF this assms] show ?thesis by auto
qed

lemma gain_names_root:
  "children n \<noteq> [] \<Longrightarrow>
     length (gain_names ns True n) = (if eff ns n = 1 then 1 else 0) + length (gain_names ns False n)"
  by (cases n) simp

lemma accepted_root_zero:
  assumes "valid_leaves t" and "distinct (node_names t)" and "children t \<noteq> []"
    and "dom ns = set (ambiguous_names None t)" and "ran ns \<subseteq> {0, 1}"
    and "length (gain_names ns True (pass2_tree None t)) + length (loss_names ns (pass2_tree None t))
           = unions t"
  shows "state (annotate_assigned ns G L (pass2_tree None t)) = Some {0}"
proof -
  let ?t2 = "pass2_tree None t"
  have res: "resolved ns ?t2"
    by (rule resolved_pass2[OF assms(1) mra_ok_None _ assms(5)]) (simp add: assms(4))
  have leaves: "set (get_leaf_names t) \<inter> dom ns = {}"
    using ambiguous_not_leaf[OF assms(2), of None] assms(4) by simp
  have sa: "singleton_assignment (annotate_assigned ns G L ?t2) t"
    by (rule singleton_assignment_annotated[OF assms(1) res leaves])
  have lb: "unions t \<le> transitions (annotate_assigned ns G L ?t2)"
    by (rule fitch_lower_bound[OF assms(1) sa])
  have ch: "children ?t2 \<noteq> []" using assms(3) by (cases t) auto
  from assms(6) gain_names_root[OF ch, of ns] transitions_annotate_assigned[OF res, of G L] lb
  have "eff ns ?t2 \<noteq> 1" by (auto split: if_splits)
  with resolved_eff01[OF res] have "eff ns ?t2 = 0" by simp
  with state_annotate_assigned[OF res, of G L] show ?thesis by simp
qed

subsection \<open>The pseudo-root\<close>

lemma final_adopt:
  assumes "valid_leaves c" and "w \<in> prelim c"
  shows "final (Some {w}) c = {w}"
proof (cases "children c = []")
  case True
  obtain nm d st op g l cs where c: "c = Node nm d st op g l cs" by (cases c)
  with True assms show ?thesis by (auto simp: final_leaf)
next
  case False
  from assms(2) have "{w} \<subseteq> prelim c" by simp
  from final_sub[OF False this] assms(2) show ?thesis by blast
qed

lemma lowest_branching_state:
  assumes "valid_leaves t" and "mra_ok mra" and "final mra t = {1}"
  shows "state (lowest_branching (pass2_tree mra t)) = Some {1}"
  using assms
proof (induction t arbitrary: mra)
  case (Node nm d st op g l cs)
  let ?t = "Node nm d st op g l cs"
  have st: "state (pass2_tree mra ?t) = Some {1}"
    using state_pass2_tree[OF valid_leaves_present[OF Node.prems(1)], of mra] Node.prems(3) by simp
  show ?case
  proof (cases "\<exists>c. cs = [c]")
    case False
    then have "lowest_branching (pass2_tree mra ?t) = pass2_tree mra ?t"
      by (cases cs; cases "tl cs") (auto simp del: prelim.simps)
    with st show ?thesis by simp
  next
    case True
    then obtain c where cs: "cs = [c]" by blast
    from Node.prems(1) cs have vc: "valid_leaves c" by simp
    have "prelim c \<noteq> {}" by (rule prelim_nonempty[OF vc])
    with cs have pre: "prelim ?t = prelim c" by simp
    have "final mra ?t \<subseteq> prelim ?t"
      using final_within_prelim[OF Node.prems(1), of mra] Node.prems(2,3) by (simp add: mra_ok_def)
    with Node.prems(3) pre have "1 \<in> prelim c" by simp
    from final_adopt[OF vc this] have fc: "final (Some {1}) c = {1}" .
    have ok: "mra_ok (Some {1})" by (simp add: mra_ok_def)
    from Node.IH[of c "Some {1}", OF _ vc ok fc] cs
    have "state (lowest_branching (pass2_tree (Some {1}) c)) = Some {1}" by simp
    moreover have "lowest_branching (pass2_tree mra ?t) = lowest_branching (pass2_tree (Some {1}) c)"
      using cs Node.prems(3) by (simp del: prelim.simps)
    ultimately show ?thesis by simp
  qed
qed

lemma lowest_branching_has_state:
  "leaf_states_present t \<Longrightarrow> state (lowest_branching (pass2_tree mra t)) \<noteq> None"
proof (induction t arbitrary: mra)
  case (Node nm d st op g l cs)
  let ?t = "Node nm d st op g l cs"
  show ?case
  proof (cases "\<exists>c. cs = [c]")
    case False
    then have "lowest_branching (pass2_tree mra ?t) = pass2_tree mra ?t"
      by (cases cs; cases "tl cs") (auto simp del: prelim.simps)
    with state_pass2_tree[OF Node.prems, of mra] show ?thesis by simp
  next
    case True
    then obtain c where cs: "cs = [c]" by blast
    with Node.prems have "leaf_states_present c" by simp
    from Node.IH[of c, OF _ this] cs show ?thesis by (simp del: prelim.simps)
  qed
qed

lemma get_pseudo_root_cases:
  assumes "get_pseudo_root tree = Inr pr"
  shows "pr = tree \<or> pr = lowest_branching tree"
  using assms by (auto simp: get_pseudo_root_def get_common_ancestor_def split: if_splits)

lemma count_list_distinct: "distinct xs \<Longrightarrow> count_list xs x \<le> 1"
  by (induction xs) (auto simp: count_list_0_iff)

lemma get_pseudo_root_distinct:
  assumes "distinct (node_names tree)"
  shows "\<exists>pr. get_pseudo_root tree = Inr pr"
proof -
  have "\<not> (\<exists>n\<in>set (get_leaf_names tree). 1 < count_list (node_names tree) n)"
    using count_list_distinct[OF assms] by (auto simp: not_less)
  then show ?thesis by (simp add: get_pseudo_root_def get_common_ancestor_def)
qed

lemma pseudo_root_state:
  assumes "leaf_states_present t" and "get_pseudo_root (pass2_tree None t) = Inr pr"
  shows "\<exists>s. state pr = Some s"
proof -
  from get_pseudo_root_cases[OF assms(2)]
  have "pr = pass2_tree None t \<or> pr = lowest_branching (pass2_tree None t)" .
  then show ?thesis
    using state_pass2_tree[OF assms(1), of None] lowest_branching_has_state[OF assms(1), of None]
    by auto
qed

lemma pseudo_root_one:
  assumes "valid_leaves t" and "get_pseudo_root (pass2_tree None t) = Inr pr"
    and "final None t = {1}"
  shows "state pr = Some {1}"
proof -
  from get_pseudo_root_cases[OF assms(2)]
  have "pr = pass2_tree None t \<or> pr = lowest_branching (pass2_tree None t)" .
  then show ?thesis
    using state_pass2_tree[OF valid_leaves_present[OF assms(1)], of None] assms(3)
      lowest_branching_state[OF assms(1) mra_ok_None assms(3)]
    by auto
qed

lemma annotate_children_total:
  assumes "\<And>c. c \<in> set cs \<Longrightarrow> \<exists>tr. annotate_from (Some s) (f c) = Inr tr"
  shows "\<exists>trs. annotate_children s (map f cs) = Inr trs"
  using assms
proof (induction cs)
  case Nil
  then show ?case by simp
next
  case (Cons c cs)
  from Cons.prems[of c] obtain tr where "annotate_from (Some s) (f c) = Inr tr" by auto
  moreover from Cons obtain trs where "annotate_children s (map f cs) = Inr trs" by auto
  ultimately show ?case by simp
qed

lemma annotate_from_total:
  "leaf_states_present t \<Longrightarrow>
     \<exists>tr. annotate_from up (pass2_tree mra t) = Inr tr \<and> state tr = Some (final mra t)"
proof (induction t arbitrary: mra up)
  case (Node nm d st op g l cs)
  let ?t = "Node nm d st op g l cs"
  show ?case
  proof (cases "cs = []")
    case True
    with Node.prems show ?thesis by (auto simp: final_leaf)
  next
    case False
    let ?u = "final mra ?t"
    have "\<exists>trs. annotate_children ?u (map (pass2_tree (Some ?u)) cs) = Inr trs"
    proof (rule annotate_children_total)
      fix c assume c: "c \<in> set cs"
      with Node.prems False have "leaf_states_present c" by (auto simp: list_all_iff)
      from Node.IH[OF c this, of "Some ?u" "Some ?u"]
      show "\<exists>tr. annotate_from (Some ?u) (pass2_tree (Some ?u) c) = Inr tr" by blast
    qed
    then obtain trs where "annotate_children ?u (map (pass2_tree (Some ?u)) cs) = Inr trs" by blast
    with False show ?thesis by (simp del: prelim.simps)
  qed
qed

lemma fitch_run_passes:
  assumes "run_passes tree = Inr (tree2, m, amb)"
  shows "fitch tree =
     (if amb \<noteq> [] then
        (if card (set (map fst amb)) > 10 then Inr (m, [])
         else case resolve tree2 m (combinations amb (card (set (map fst amb)))) of
           Inl e \<Rightarrow> Inl e
         | Inr trees \<Rightarrow> origin_veto tree2 m trees)
      else case annotate_from None tree2 of
        Inl e \<Rightarrow> Inl e
      | Inr tr \<Rightarrow> origin_veto tree2 m [tr])"
proof -
  from assms obtain tree1 where p1: "fitch_pass1 tree = Inr (tree1, m)"
    and p2: "fitch_pass2 tree1 = Inr (tree2, amb)"
    by (auto simp: run_passes_def split: sum.splits prod.splits)
  show ?thesis by (simp add: fitch_def fitch'_def p1 p2 Let_def)
qed

lemma resolve_candidates:
  assumes "valid_leaves t" and "amb_ok (ambiguous_names None t) amb"
  shows "resolve (pass2_tree None t) m (combinations amb (card (set (map fst amb))))
           = Inr (map (accepted_tree (pass2_tree None t))
                   (filter (accepts (pass2_tree None t) m)
                      (combinations amb (card (set (map fst amb))))))"
proof (rule resolve_pure)
  fix ts assume ts: "ts \<in> set (combinations amb (card (set (map fst amb))))" and u: "unique_nodes ts"
  from candidate_node_state[OF assms(2) ts u]
  have "dom (node_state_of ts) = set (ambiguous_names None t)" "ran (node_state_of ts) \<subseteq> {0, 1}"
    by auto
  then show "resolved (node_state_of ts) (pass2_tree None t)"
    using resolved_pass2[OF assms(1) mra_ok_None, of "node_state_of ts"] by simp
qed

subsection \<open>The reconstruction, branch by branch\<close>

lemma origin_veto_result:
  assumes "get_pseudo_root tree2 = Inr pr" and "state pr = Some s"
  shows "origin_veto tree2 m trees = Inr (m, if s = {1} then [] else trees)"
  using assms by (simp add: origin_veto_def)

lemma run_passes_facts:
  assumes "valid_leaves t" and "run_passes t = Inr (t2, m, amb)"
  shows "t2 = pass2_tree None t" and "m = unions t" and "amb_ok (ambiguous_names None t) amb"
  using run_passes_pure[OF valid_leaves_present[OF assms(1)]] assms(2) by auto

lemma amb_ok_empty: "amb_ok names [] \<Longrightarrow> names = []"
  by (simp add: amb_ok_def)

lemma amb_ok_nonempty: "amb_ok names amb \<Longrightarrow> amb \<noteq> [] \<Longrightarrow> names \<noteq> []"
  by (auto simp: amb_ok_def)

lemma unambiguous_root_card:
  assumes "valid_leaves t" and "ambiguous_names None t = []"
  shows "card (final None t) \<le> 1"
proof (cases "children t = []")
  case True
  obtain nm d st op g l cs where t: "t = Node nm d st op g l cs" by (cases t)
  with True assms(1) show ?thesis by (auto simp: final_leaf)
next
  case False
  obtain nm d st op g l cs where t: "t = Node nm d st op g l cs" by (cases t)
  show ?thesis
  proof (rule ccontr)
    assume "\<not> card (final None t) \<le> 1"
    then have "card (final None t) > 1" by simp
    with False t have "nm \<in> set (ambiguous_names None t)" by (simp del: prelim.simps)
    with assms(2) show False by simp
  qed
qed

subsection \<open>Missing leaf states\<close>

lemma states_of_error: "states_of ds = Inl e \<Longrightarrow> e = AttributeError"
  by (induction ds arbitrary: e) (auto split: option.splits sum.splits)

lemma states_of_missing: "\<exists>d\<in>set ds. state d = None \<Longrightarrow> states_of ds = Inl AttributeError"
proof (induction ds)
  case Nil
  then show ?case by simp
next
  case (Cons d ds)
  show ?case
  proof (cases "state d")
    case None
    then show ?thesis by simp
  next
    case (Some s)
    with Cons.prems have "\<exists>d\<in>set ds. state d = None" by auto
    from Cons.IH[OF this] Some show ?thesis by simp
  qed
qed

lemma pass1_error:
  "fitch_pass1 t = Inl e \<Longrightarrow> e = AttributeError"
  "pass1_children cs = Inl e \<Longrightarrow> e = AttributeError"
proof (induction t and cs arbitrary: e and e rule: fitch_pass1_pass1_children.induct)
  case (1 nm d st op g l cs)
  then show ?case
    by (auto simp: Let_def split: if_splits sum.splits prod.splits dest: states_of_error)
next
  case 2
  then show ?case by simp
next
  case (3 c cs)
  then show ?case by (auto split: sum.splits prod.splits)
qed

lemma pass1_leaf_state:
  "fitch_pass1 c = Inr (c', k) \<Longrightarrow> children c = [] \<Longrightarrow> state c' = state c"
  by (cases c) auto

lemma pass1_children_member:
  "pass1_children cs = Inr (cs', k) \<Longrightarrow> c \<in> set cs \<Longrightarrow>
     \<exists>c' k'. fitch_pass1 c = Inr (c', k') \<and> c' \<in> set cs'"
proof (induction cs arbitrary: cs' k)
  case Nil
  then show ?case by simp
next
  case (Cons x xs)
  from Cons.prems(1) obtain x' k1 xs' k2 where x: "fitch_pass1 x = Inr (x', k1)"
    and xs: "pass1_children xs = Inr (xs', k2)" and cs': "cs' = x' # xs'"
    by (auto split: sum.splits prod.splits)
  show ?case
  proof (cases "c = x")
    case True
    with x cs' show ?thesis by auto
  next
    case False
    with Cons.prems(2) have "c \<in> set xs" by simp
    from Cons.IH[OF xs this] cs' show ?thesis by auto
  qed
qed

lemma pass1_missing_state:
  "\<not> leaf_states_present t \<Longrightarrow> children t \<noteq> [] \<Longrightarrow> fitch_pass1 t = Inl AttributeError"
proof (induction t)
  case (Node nm d st op g l cs)
  from Node.prems obtain c where c: "c \<in> set cs" "\<not> leaf_states_present c"
    by (auto simp: list_all_iff)
  show ?case
  proof (cases "pass1_children cs")
    case (Inl e)
    with pass1_error(2)[OF Inl] Node.prems(2) show ?thesis by simp
  next
    case (Inr r)
    obtain cs' k where r: "r = (cs', k)" by (cases r)
    from pass1_children_member[OF Inr[unfolded r] c(1)]
    obtain c' k' where c': "fitch_pass1 c = Inr (c', k')" "c' \<in> set cs'" by blast
    have leafc: "children c = []"
    proof (rule ccontr)
      assume "children c \<noteq> []"
      from Node.IH[OF c(1) c(2) this] c'(1) show False by simp
    qed
    with c(2) have "state c = None" by (cases c) auto
    with pass1_leaf_state[OF c'(1) leafc] have "state c' = None" by simp
    with c'(2) have "states_of cs' = Inl AttributeError" by (intro states_of_missing) blast
    with Inr r Node.prems(2) show ?thesis by simp
  qed
qed

lemmas example_defs = inner_def leaf_def fitch_def fitch'_def fitch_pass2_def run_passes_def Let_def
  origin_veto_def get_pseudo_root_def get_common_ancestor_def unique_nodes_def node_state_of_def
  effective_state_def unpack_state_def

subsection \<open>Evaluating the examples\<close>

lemma unnamed3_eval:
  "run_passes unnamed3 =
     Inr (Node [] 1 (Some {0, 1}) (Some UNION) False False
            [Node [] 1 (Some {1}) (Some INTERSECT) False False [leaf ''A'' 1, leaf ''C'' 1],
             leaf ''B'' 0],
          1, [(([], []), 0), (([], []), 1)])"
  by (simp add: unnamed3_def example_defs insert_commute)

lemma unnamed3_eff:
  "effective_state (node_state_of [(([], []), 0)])
     (Node [] 1 (Some {1}) (Some INTERSECT) False False [leaf ''A'' 1, leaf ''C'' 1]) = Inr 0"
  by (simp add: example_defs)

lemma unnamed3_fitch: "fitch unnamed3 = Inr (1, [])"
  by (simp add: unnamed3_def example_defs insert_commute)

subsection \<open>The store\<close>

lemma those_map_Some:
  "those (map f xs) = Some ys \<longleftrightarrow> list_all2 (\<lambda>x y. f x = Some y) xs ys"
proof (induction xs arbitrary: ys)
  case Nil
  then show ?case by auto
next
  case (Cons x xs)
  show ?case
  proof (cases "f x")
    case None
    then show ?thesis by (auto simp: list_all2_Cons1)
  next
    case (Some y)
    then show ?thesis using Cons by (auto simp: list_all2_Cons1)
  qed
qed

lemma height_child: "c \<in> set cs \<Longrightarrow> height c \<le> Max (insert 0 (set (map height cs)))"
  by (rule Max_ge) auto

lemma load_height: "load k h a = Some t \<Longrightarrow> height t \<le> k"
proof (induction k arbitrary: a t)
  case 0
  then show ?case by simp
next
  case (Suc k)
  from Suc.prems obtain cs where a: "a < length h"
    and th: "those (map (load k h) (o_children (h ! a))) = Some cs"
    and t: "t = Node (o_name (h ! a)) (o_dist (h ! a)) (o_state (h ! a)) (o_operation (h ! a))
                  (o_gain (h ! a)) (o_loss (h ! a)) cs"
    by (auto split: if_splits option.splits)
  from th have all2: "list_all2 (\<lambda>x y. load k h x = Some y) (o_children (h ! a)) cs"
    by (simp add: those_map_Some)
  have "height c \<le> k" if "c \<in> set cs" for c
  proof -
    from that all2 obtain x where "load k h x = Some c"
      by (auto simp: list_all2_conv_all_nth in_set_conv_nth)
    then show ?thesis by (rule Suc.IH)
  qed
  then have "Max (insert 0 (set (map height cs))) \<le> k" by auto
  with t show ?case by simp
qed

lemma load_frame:
  assumes "load k h a = Some t" and "length h \<le> length h'" and "\<And>b. b < length h \<Longrightarrow> h' ! b = h ! b"
  shows "load k h' a = Some t"
  using assms(1)
proof (induction k arbitrary: a t)
  case 0
  then show ?case by simp
next
  case (Suc k)
  from Suc.prems obtain cs where a: "a < length h"
    and th: "those (map (load k h) (o_children (h ! a))) = Some cs"
    and t: "t = Node (o_name (h ! a)) (o_dist (h ! a)) (o_state (h ! a)) (o_operation (h ! a))
                  (o_gain (h ! a)) (o_loss (h ! a)) cs"
    by (auto split: if_splits option.splits)
  from th have all2: "list_all2 (\<lambda>x y. load k h x = Some y) (o_children (h ! a)) cs"
    by (simp add: those_map_Some)
  have "list_all2 (\<lambda>x y. load k h' x = Some y) (o_children (h ! a)) cs"
    by (rule list_all2_mono[OF all2]) (rule Suc.IH)
  then have th': "those (map (load k h') (o_children (h ! a))) = Some cs"
    by (simp add: those_map_Some)
  from a assms(2) have a': "a < length h'" by simp
  from a have eq: "h' ! a = h ! a" by (rule assms(3))
  show ?case using a' eq th' t by simp
qed

lemma load_append: "load k h a = Some t \<Longrightarrow> load k (h @ ext) a = Some t"
  by (rule load_frame) (auto simp: nth_append)

lemma load_fuel_mono: "load k h a = Some t \<Longrightarrow> k \<le> k' \<Longrightarrow> load k' h a = Some t"
proof (induction k arbitrary: a t k')
  case 0
  then show ?case by simp
next
  case (Suc k)
  from Suc.prems(2) obtain j where k': "k' = Suc j" and kj: "k \<le> j" by (cases k') auto
  from Suc.prems(1) obtain cs where a: "a < length h"
    and th: "those (map (load k h) (o_children (h ! a))) = Some cs"
    and t: "t = Node (o_name (h ! a)) (o_dist (h ! a)) (o_state (h ! a)) (o_operation (h ! a))
                  (o_gain (h ! a)) (o_loss (h ! a)) cs"
    by (auto split: if_splits option.splits)
  from th have all2: "list_all2 (\<lambda>x y. load k h x = Some y) (o_children (h ! a)) cs"
    by (simp add: those_map_Some)
  have "list_all2 (\<lambda>x y. load j h x = Some y) (o_children (h ! a)) cs"
    by (rule list_all2_mono[OF all2]) (rule Suc.IH[OF _ kj])
  then have "those (map (load j h) (o_children (h ! a))) = Some cs"
    by (simp add: those_map_Some)
  with a t show ?case unfolding k' by simp
qed

lemma alloc_extends:
  "alloc h t = (h', a) \<Longrightarrow> (\<exists>ext. h' = h @ ext) \<and> length h \<le> a \<and> a < length h'"
  "alloc_list h ts = (h', as) \<Longrightarrow>
     (\<exists>ext. h' = h @ ext) \<and> (\<forall>a\<in>set as. length h \<le> a \<and> a < length h')"
proof (induction h t and h ts arbitrary: h' a and h' as rule: alloc_alloc_list.induct)
  case (1 h nm d st op g l cs)
  obtain h1 as1 where al: "alloc_list h cs = (h1, as1)" by (cases "alloc_list h cs")
  from "1.IH"[OF al] obtain ext where "h1 = h @ ext" by blast
  with "1.prems" al show ?case by auto
next
  case (2 h)
  then show ?case by simp
next
  case (3 h c cs)
  obtain h1 a1 where a1: "alloc h c = (h1, a1)" by (cases "alloc h c")
  obtain h2 as2 where a2: "alloc_list h1 cs = (h2, as2)" by (cases "alloc_list h1 cs")
  from "3.IH"(1)[OF a1] obtain e1 where e1: "h1 = h @ e1" and r1: "length h \<le> a1" "a1 < length h1"
    by blast
  from "3.IH"(2)[OF a1[symmetric] a2] obtain e2 where e2: "h2 = h1 @ e2"
    and r2: "\<forall>a\<in>set as2. length h1 \<le> a \<and> a < length h2" by blast
  from "3.prems" a1 a2 have h': "h' = h2" and as: "as = a1 # as2" by auto
  show ?case unfolding h' as using e1 e2 r1 r2 by auto
qed

lemma closed_fromD:
  "closed_from n0 h \<Longrightarrow> n0 \<le> b \<Longrightarrow> b < length h \<Longrightarrow> c \<in> set (o_children (h ! b)) \<Longrightarrow>
     n0 \<le> c \<and> c < length h"
  unfolding closed_from_def by blast

lemma closed_fromI:
  "(\<And>b c. n0 \<le> b \<Longrightarrow> b < length h \<Longrightarrow> c \<in> set (o_children (h ! b)) \<Longrightarrow> n0 \<le> c \<and> c < length h)
     \<Longrightarrow> closed_from n0 h"
  unfolding closed_from_def by blast

lemma alloc_load:
  "alloc h t = (h', a) \<Longrightarrow> load (height t) h' a = Some t"
  "alloc_list h ts = (h', as) \<Longrightarrow> list_all2 (\<lambda>a t. load (height t) h' a = Some t) as ts"
proof (induction h t and h ts arbitrary: h' a and h' as rule: alloc_alloc_list.induct)
  case (1 h nm d st op g l cs)
  obtain h1 as1 where al: "alloc_list h cs = (h1, as1)" by (cases "alloc_list h cs")
  let ?o = "\<lparr>o_name = nm, o_dist = d, o_state = st, o_operation = op, o_gain = g,
                  o_loss = l, o_children = as1\<rparr>"
  let ?k = "Max (insert 0 (set (map height cs)))"
  from "1.prems" al have h': "h' = h1 @ [?o]" and a: "a = length h1" by auto
  have "list_all2 (\<lambda>a t. load (height t) h1 a = Some t) as1 cs" by (rule "1.IH"[OF al])
  then have "list_all2 (\<lambda>a t. load ?k h' a = Some t) as1 cs"
  proof (rule list.rel_mono_strong)
    fix x c assume c: "c \<in> set cs" and l: "load (height c) h1 x = Some c"
    from load_append[OF l, of "[?o]"] have "load (height c) h' x = Some c" by (simp add: h')
    then show "load ?k h' x = Some c" by (rule load_fuel_mono) (rule height_child[OF c])
  qed
  then have "those (map (load ?k h') as1) = Some cs" by (simp add: those_map_Some)
  then show ?case by (simp add: h' a)
next
  case (2 h)
  then show ?case by simp
next
  case (3 h c cs)
  obtain h1 a1 where a1: "alloc h c = (h1, a1)" by (cases "alloc h c")
  obtain h2 as2 where a2: "alloc_list h1 cs = (h2, as2)" by (cases "alloc_list h1 cs")
  from "3.prems" a1 a2 have h': "h' = h2" and as: "as = a1 # as2" by auto
  from alloc_extends(2)[OF a2] obtain e2 where e2: "h2 = h1 @ e2" by blast
  have "load (height c) h1 a1 = Some c" by (rule "3.IH"(1)[OF a1])
  then have "load (height c) h2 a1 = Some c" unfolding e2 by (rule load_append)
  moreover have "list_all2 (\<lambda>a t. load (height t) h2 a = Some t) as2 cs"
    by (rule "3.IH"(2)[OF a1[symmetric] a2])
  ultimately show ?case unfolding h' as by simp
qed

lemma alloc_height:
  "alloc h t = (h', a) \<Longrightarrow> height t \<le> length h'"
  "alloc_list h ts = (h', as) \<Longrightarrow> \<forall>t\<in>set ts. height t \<le> length h'"
proof (induction h t and h ts arbitrary: h' a and h' as rule: alloc_alloc_list.induct)
  case (1 h nm d st op g l cs)
  obtain h1 as1 where al: "alloc_list h cs = (h1, as1)" by (cases "alloc_list h cs")
  from "1.prems" al have len: "length h' = Suc (length h1)" by auto
  from "1.IH"[OF al] have "Max (insert 0 (set (map height cs))) \<le> length h1" by auto
  with len show ?case by simp
next
  case (2 h)
  then show ?case by simp
next
  case (3 h c cs)
  obtain h1 a1 where a1: "alloc h c = (h1, a1)" by (cases "alloc h c")
  obtain h2 as2 where a2: "alloc_list h1 cs = (h2, as2)" by (cases "alloc_list h1 cs")
  from "3.prems" a1 a2 have h': "h' = h2" by auto
  from alloc_extends(2)[OF a2] have "length h1 \<le> length h2" by auto
  with "3.IH"(1)[OF a1] "3.IH"(2)[OF a1[symmetric] a2] show ?case unfolding h' by auto
qed

lemma alloc_closed:
  "alloc h t = (h', a) \<Longrightarrow> closed_from n0 h \<Longrightarrow> n0 \<le> length h \<Longrightarrow> closed_from n0 h'"
  "alloc_list h ts = (h', as) \<Longrightarrow> closed_from n0 h \<Longrightarrow> n0 \<le> length h \<Longrightarrow> closed_from n0 h'"
proof (induction h t and h ts arbitrary: h' a and h' as rule: alloc_alloc_list.induct)
  case (1 h nm d st op g l cs)
  obtain h1 as1 where al: "alloc_list h cs = (h1, as1)" by (cases "alloc_list h cs")
  let ?o = "\<lparr>o_name = nm, o_dist = d, o_state = st, o_operation = op, o_gain = g,
                  o_loss = l, o_children = as1\<rparr>"
  from "1.prems"(1) al have h': "h' = h1 @ [?o]" by auto
  have c1: "closed_from n0 h1" by (rule "1.IH"[OF al "1.prems"(2,3)])
  from alloc_extends(2)[OF al] "1.prems"(3)
  have in1: "\<forall>a\<in>set as1. n0 \<le> a \<and> a < length h1" by auto
  show ?case
    unfolding h'
  proof (rule closed_fromI)
    fix b c assume b: "n0 \<le> b" "b < length (h1 @ [?o])" and c: "c \<in> set (o_children ((h1 @ [?o]) ! b))"
    show "n0 \<le> c \<and> c < length (h1 @ [?o])"
    proof (cases "b < length h1")
      case True
      with c have "c \<in> set (o_children (h1 ! b))" by (simp add: nth_append)
      from closed_fromD[OF c1 b(1) True this] show ?thesis by simp
    next
      case False
      with b have "b = length h1" by simp
      with c have "c \<in> set as1" by simp
      with in1 show ?thesis by auto
    qed
  qed
next
  case (2 h)
  then show ?case by simp
next
  case (3 h c cs)
  obtain h1 a1 where a1: "alloc h c = (h1, a1)" by (cases "alloc h c")
  obtain h2 as2 where a2: "alloc_list h1 cs = (h2, as2)" by (cases "alloc_list h1 cs")
  from "3.prems"(1) a1 a2 have h': "h' = h2" by auto
  have c1: "closed_from n0 h1" by (rule "3.IH"(1)[OF a1 "3.prems"(2,3)])
  from alloc_extends(1)[OF a1] "3.prems"(3) have "n0 \<le> length h1" by auto
  from "3.IH"(2)[OF a1[symmetric] a2 c1 this] show ?case unfolding h' .
qed

lemma closed_from_length: "closed_from (length h) h"
  by (simp add: closed_from_def)

lemma write_back_frame:
  "closed_from n0 h \<Longrightarrow> n0 \<le> a \<Longrightarrow>
     length (write_back h a t) = length h
     \<and> (\<forall>b. o_children (write_back h a t ! b) = o_children (h ! b))
     \<and> (\<forall>b<n0. write_back h a t ! b = h ! b)"
  "closed_from n0 h \<Longrightarrow> \<forall>a\<in>set as. n0 \<le> a \<Longrightarrow>
     length (write_back_list h as ts) = length h
     \<and> (\<forall>b. o_children (write_back_list h as ts ! b) = o_children (h ! b))
     \<and> (\<forall>b<n0. write_back_list h as ts ! b = h ! b)"
proof (induction h a t and h as ts rule: write_back_write_back_list.induct)
  case (1 h a nm d st op g l cs)
  show ?case
  proof (cases "a < length h")
    case False
    then show ?thesis by simp
  next
    case True
    let ?h1 = "h[a := (h ! a)\<lparr>o_state := st, o_operation := op, o_gain := g, o_loss := l\<rparr>]"
    have len1: "length ?h1 = length h" by simp
    have ch1: "o_children (?h1 ! b) = o_children (h ! b)" for b
      using True by (cases "b = a") (simp_all add: nth_list_update)
    have pre1: "?h1 ! b = h ! b" if "b < n0" for b
      using that "1.prems"(2) by simp
    have cl1: "closed_from n0 ?h1"
    proof (rule closed_fromI)
      fix b c assume "n0 \<le> b" "b < length ?h1" "c \<in> set (o_children (?h1 ! b))"
      then have "n0 \<le> b" "b < length h" "c \<in> set (o_children (h ! b))"
        by (simp_all only: len1 ch1)
      from closed_fromD[OF "1.prems"(1) this] show "n0 \<le> c \<and> c < length ?h1"
        by (simp only: len1)
    qed
    have kids: "\<forall>c\<in>set (o_children (h ! a)). n0 \<le> c"
      using closed_fromD[OF "1.prems"(1,2) True] by blast
    from "1.IH"[OF True cl1 kids] len1 ch1 pre1 True show ?thesis by simp
  qed
next
  case (2 h cs)
  then show ?case by simp
next
  case (3 h a as)
  then show ?case by simp
next
  case (4 h a as c cs)
  from "4.prems"(2) have a: "n0 \<le> a" and as: "\<forall>a\<in>set as. n0 \<le> a" by auto
  note f1 = "4.IH"(1)[OF "4.prems"(1) a]
  have cl: "closed_from n0 (write_back h a c)"
  proof (rule closed_fromI)
    fix b x assume "n0 \<le> b" "b < length (write_back h a c)"
      "x \<in> set (o_children (write_back h a c ! b))"
    with f1 have "n0 \<le> b" "b < length h" "x \<in> set (o_children (h ! b))" by simp_all
    from closed_fromD[OF "4.prems"(1) this] f1 show "n0 \<le> x \<and> x < length (write_back h a c)"
      by simp
  qed
  from "4.IH"(2)[OF cl as] f1 show ?case by simp
qed

lemma pass1_written_agrees:
  "pass1_written t = (case fitch_pass1 t of Inl e \<Rightarrow> (fst (pass1_written t), False)
                        | Inr (t1, m) \<Rightarrow> (t1, True))"
  "pass1_written_list cs = (case pass1_children cs of Inl e \<Rightarrow> (fst (pass1_written_list cs), False)
                        | Inr (cs1, m) \<Rightarrow> (cs1, True))"
proof (induction t and cs rule: fitch_pass1_pass1_children.induct)
  case (1 nm d st op g l cs)
  show ?case
  proof (cases "cs = []")
    case True
    then show ?thesis by simp
  next
    case False
    show ?thesis
    proof (cases "pass1_children cs")
      case (Inl e)
      with "1.IH"[OF False] have "snd (pass1_written_list cs) = False"
        by (metis old.sum.simps(5) snd_conv)
      with Inl False show ?thesis by (auto split: prod.splits bool.splits)
    next
      case (Inr r)
      obtain cs1 m where r: "r = (cs1, m)" by (cases r)
      with "1.IH"[OF False] Inr have w: "pass1_written_list cs = (cs1, True)" by simp
      show ?thesis using False Inr r w
        by (auto simp: Let_def split: sum.splits)
    qed
  qed
next
  case 2
  then show ?case by simp
next
  case (3 c cs)
  show ?case
  proof (cases "fitch_pass1 c")
    case (Inl e)
    with "3.IH"(1) have "snd (pass1_written c) = False" by (metis old.sum.simps(5) snd_conv)
    with Inl show ?thesis by (auto split: prod.splits bool.splits)
  next
    case (Inr r)
    obtain c1 m where r: "r = (c1, m)" by (cases r)
    with "3.IH"(1) Inr have w: "pass1_written c = (c1, True)" by simp
    show ?thesis
    proof (cases "pass1_children cs")
      case (Inl e)
      with "3.IH"(2)[OF Inr[unfolded r] refl] have "snd (pass1_written_list cs) = False"
        by (metis old.sum.simps(5) snd_conv)
      with Inl Inr r w show ?thesis by (auto split: prod.splits)
    next
      case inr: (Inr r2)
      obtain cs1 m2 where r2: "r2 = (cs1, m2)" by (cases r2)
      with "3.IH"(2)[OF Inr[unfolded r] refl] inr have "pass1_written_list cs = (cs1, True)" by simp
      with inr r2 Inr r w show ?thesis by simp
    qed
  qed
qed

lemma pass1_written_result:
  "fitch_pass1 t = Inr (t1, m) \<Longrightarrow> pass1_written t = (t1, True)"
  using pass1_written_agrees(1)[of t] by simp

lemma pass2_after_pass1:
  assumes "fitch_pass1 t = Inr (t1, m)"
  shows "\<exists>t2 amb. fitch_pass2 t1 = Inr (t2, amb)"
proof (cases "children t = []")
  case True
  obtain nm d st op g l cs where t: "t = Node nm d st op g l cs" by (cases t)
  with True assms show ?thesis by (auto simp: fitch_pass2_def)
next
  case False
  have lp: "leaf_states_present t"
  proof (rule ccontr)
    assume "\<not> leaf_states_present t"
    from pass1_missing_state[OF this False] assms show False by simp
  qed
  from pass1_pure[OF lp] assms have "t1 = pass1_tree t" by simp
  with pass2_pure[OF lp, of None "[]"] show ?thesis by (auto simp: fitch_pass2_def)
qed

lemma prefix_take:
  assumes "length h \<le> length h'" and "\<And>b. b < length h \<Longrightarrow> h' ! b = h ! b"
  shows "take (length h) h' = h"
  using assms by (intro nth_equalityI) auto

lemma fitch'_store_runs:
  assumes "load k h a = Some tree" and "closed_from n0 h" and "n0 \<le> a"
  shows "\<exists>h' r. fitch'_store k h a = Some (h', r) \<and> length h \<le> length h'
           \<and> (\<forall>b<n0. h' ! b = h ! b) \<and> denotes h' r (fitch' tree)"
proof -
  let ?hw = "write_back h a (working_tree tree)"
  from write_back_frame(1)[OF assms(2,3), of "working_tree tree"]
  have len: "length ?hw = length h" and pre: "\<forall>b<n0. ?hw ! b = h ! b" by auto
  show ?thesis
  proof (cases "fitch' tree")
    case (Inl e)
    then have "fitch'_store k h a = Some (?hw, Inl e)" by (simp add: fitch'_store_def assms(1))
    moreover have "denotes ?hw (Inl e) (fitch' tree)" using Inl by (simp add: denotes_def)
    ultimately show ?thesis using len pre by auto
  next
    case (Inr r)
    obtain m trees where r: "r = (m, trees)" by (cases r)
    obtain h' addrs where al: "alloc_list ?hw trees = (h', addrs)" by (cases "alloc_list ?hw trees")
    from Inr r al have run: "fitch'_store k h a = Some (h', Inr (m, addrs))"
      by (simp add: fitch'_store_def assms(1))
    from alloc_extends(2)[OF al] obtain ext where ext: "h' = ?hw @ ext" by blast
    have len': "length h \<le> length h'" unfolding ext using len by simp
    have pre': "\<forall>b<n0. h' ! b = h ! b"
    proof (intro allI impI)
      fix b assume b: "b < n0"
      from assms(1) have "a < length h" by (cases k) (auto split: if_splits)
      with assms(3) b have "b < length ?hw" using len by simp
      then have "h' ! b = ?hw ! b" unfolding ext by (simp add: nth_append)
      with pre b show "h' ! b = h ! b" by simp
    qed
    have "list_all2 (\<lambda>a t. load (height t) h' a = Some t) addrs trees" by (rule alloc_load(2)[OF al])
    then have "list_all2 (\<lambda>a t. load (length h') h' a = Some t) addrs trees"
    proof (rule list.rel_mono_strong)
      fix x t assume t: "t \<in> set trees" and l: "load (height t) h' x = Some t"
      from alloc_height(2)[OF al] t have "height t \<le> length h'" by simp
      with l show "load (length h') h' x = Some t" by (rule load_fuel_mono)
    qed
    then have "those (map (load (length h') h') addrs) = Some trees" by (simp add: those_map_Some)
    then have "denotes h' (Inr (m, addrs)) (fitch' tree)" using Inr r by (simp add: denotes_def)
    with run len' pre' show ?thesis by auto
  qed
qed

lemma fitch_store_runs:
  assumes "load k h a = Some tree"
  shows "\<exists>h' r. fitch_store k h a = Some (h', r) \<and> length h \<le> length h'
           \<and> (\<forall>b<length h. h' ! b = h ! b) \<and> denotes h' r (fitch tree)"
proof -
  obtain h1 cp where al: "alloc h tree = (h1, cp)" by (cases "alloc h tree")
  from alloc_extends(1)[OF al] obtain ext where ext: "h1 = h @ ext" and cp: "length h \<le> cp" by blast
  have cl: "closed_from (length h) h1" by (rule alloc_closed(1)[OF al closed_from_length]) simp
  have "load (height tree) h1 cp = Some tree" by (rule alloc_load(1)[OF al])
  then have lcp: "load k h1 cp = Some tree" by (rule load_fuel_mono) (rule load_height[OF assms])
  from fitch'_store_runs[OF lcp cl cp] obtain h' r where
    run: "fitch'_store k h1 cp = Some (h', r)" and len: "length h1 \<le> length h'"
    and pre: "\<forall>b<length h. h' ! b = h1 ! b" and den: "denotes h' r (fitch' tree)" by blast
  have "fitch_store k h a = Some (h', r)" using al run by (simp add: fitch_store_def assms)
  moreover have "length h \<le> length h'" using len ext by simp
  moreover have "\<forall>b<length h. h' ! b = h ! b" using pre ext by (simp add: nth_append)
  moreover have "denotes h' r (fitch tree)" using den by (simp add: fitch_def)
  ultimately show ?thesis by blast
qed

lemma heap3_load: "load 2 heap3 2 = Some stored3"
  by (simp add: heap3_def stored3_def inner_def leaf_def numeral_2_eq_2)

subsection \<open>Main results\<close>

text \<open>
  Where the event count is right: for a tree with valid leaf states and pairwise distinct
  node names, which is binary whenever no node is ambiguous, the reconstruction returns,
  and every annotated tree it returns carries exactly \<open>min_changes\<close> gain and loss flags
  (the gain flag of a root set to 1 included).
\<close>

theorem accepted_trees_count_min_changes:
  assumes "valid_leaves t" and "distinct (node_names t)"
    and "run_passes t = Inr (t2, m, amb)" and "amb = [] \<longrightarrow> binary t"
  shows "\<exists>trees. fitch t = Inr (m, trees) \<and> (\<forall>tr\<in>set trees. events tr = m)"
proof -
  note facts = run_passes_facts[OF assms(1,3)]
  have dn: "distinct (node_names t2)" using assms(2) facts(1) by (simp add: node_names_pass2)
  from get_pseudo_root_distinct[OF dn] obtain pr where pr: "get_pseudo_root t2 = Inr pr" by blast
  from pseudo_root_state[OF valid_leaves_present[OF assms(1)]] pr facts(1)
  obtain s where s: "state pr = Some s" by blast
  note veto = origin_veto_result[OF pr s]
  show ?thesis
  proof (cases "amb = []")
    case True
    with assms(4) have bin: "binary t" by simp
    from True facts(3) have na: "ambiguous_names None t = []" by (simp add: amb_ok_empty)
    from unambiguous_events[OF assms(1) bin na, of None] facts(1,2)
    obtain tr where tr: "annotate_from None t2 = Inr tr" "events tr = m"
      by (auto simp: flag_count_def)
    show ?thesis
      unfolding fitch_run_passes[OF assms(3)] using True tr veto by simp
  next
    case False
    let ?r = "card (set (map fst amb))"
    show ?thesis
    proof (cases "?r > 10")
      case True
      with False show ?thesis unfolding fitch_run_passes[OF assms(3)] by simp
    next
      case small: False
      let ?trees = "map (accepted_tree t2) (filter (accepts t2 m) (combinations amb ?r))"
      have res: "resolve t2 m (combinations amb ?r) = Inr ?trees"
        using resolve_candidates[OF assms(1) facts(3), of m] facts(1) by simp
      have ev: "events tr = m" if "tr \<in> set ?trees" for tr
      proof -
        from that obtain ts where ts: "accepts t2 m ts" "tr = accepted_tree t2 ts" by auto
        have "flags_clear t2" unfolding facts(1) by (rule flags_clear_pass2)
        from accepted_events[OF dn this, of "node_state_of ts" True] ts
        show ?thesis by (simp add: accepted_tree_def accepts_def)
      qed
      have "fitch t = Inr (m, if s = {1} then [] else ?trees)"
        unfolding fitch_run_passes[OF assms(3)] using False small res veto by simp
      with ev show ?thesis by auto
    qed
  qed
qed

theorem accepted_trees_count_min_changes_witness:
  "valid_leaves named3 \<and> distinct (node_names named3) \<and> binary named3
   \<and> run_passes named3 =
        Inr (Node ''r'' 1 (Some {0, 1}) (Some UNION) False False
               [Node ''x'' 1 (Some {1}) (Some INTERSECT) False False [leaf ''A'' 1, leaf ''C'' 1],
                leaf ''B'' 0],
             1, [(([], ''r''), 0), (([], ''r''), 1)])
   \<and> (\<exists>trees. fitch named3 = Inr (1, trees) \<and> (\<forall>tr\<in>set trees. events tr = 1))"
proof -
  have v: "valid_leaves named3" by (simp add: named3_def inner_def leaf_def)
  have d: "distinct (node_names named3)" by (simp add: named3_def inner_def leaf_def)
  have b: "binary named3" by (simp add: named3_def inner_def leaf_def)
  have r: "run_passes named3 =
        Inr (Node ''r'' 1 (Some {0, 1}) (Some UNION) False False
               [Node ''x'' 1 (Some {1}) (Some INTERSECT) False False [leaf ''A'' 1, leaf ''C'' 1],
                leaf ''B'' 0],
             1, [(([], ''r''), 0), (([], ''r''), 1)])"
    by (simp add: named3_def example_defs insert_commute)
  from accepted_trees_count_min_changes[OF v d r] b v d r show ?thesis by simp
qed

text \<open>
  C1. Every returned tree should carry exactly \<open>min_changes\<close> events; the code returns
  trees that do not. Without an ambiguous node the tree is emitted without the test
  \<^verbatim>\<open>tot_changes == min_changes\<close> that the enumeration applies: on \<open>poly6\<close>, which has a
  node of four children, the one returned tree carries three events while \<open>min_changes\<close>
  is 1. Inside the enumeration the flags are set by name: on \<open>dup4\<close>, where two internal
  nodes share the name \<open>x\<close>, the accepted candidate has one gain, at the first \<open>x\<close>,
  and the returned tree carries two gain flags while \<open>min_changes\<close> is 1.
\<close>

theorem returned_tree_event_count_mismatch:
  "map_sum id (\<lambda>(t2, m, amb). (m, amb)) (run_passes poly6) = Inr (1, [])
   \<and> map_sum id (\<lambda>(m, trees). (m, map events trees)) (fitch poly6) = Inr (1, [3])
   \<and> map_sum id (\<lambda>(t2, m, amb). (m, amb)) (run_passes dup4)
        = Inr (1, [(([], ''r''), 0), (([], ''r''), 1)])
   \<and> map_sum id (\<lambda>(m, trees). (m, map events trees, map (map gain \<circ> children) trees))
        (fitch dup4) = Inr (1, [2], [[True, True]])"
  by (simp add: poly6_def dup4_def example_defs insert_commute)

text \<open>
  C2. The effective state of a node is looked up by the node's name, not by the node. In
  the tree \<open>((A, C), B)\<close> with unnamed internal nodes and states 1, 1, 0 only the root is
  ambiguous; under the candidate that gives the root 0 the inner node, whose own state is
  \<open>{1}\<close>, is counted with state 0, and the reconstruction accepts no tree at all.
\<close>

theorem name_keyed_assignment_unnamed3:
  "run_passes unnamed3 =
     Inr (Node [] 1 (Some {0, 1}) (Some UNION) False False
            [Node [] 1 (Some {1}) (Some INTERSECT) False False [leaf ''A'' 1, leaf ''C'' 1],
             leaf ''B'' 0],
          1, [(([], []), 0), (([], []), 1)])
   \<and> effective_state (node_state_of [(([], []), 0)])
        (Node [] 1 (Some {1}) (Some INTERSECT) False False [leaf ''A'' 1, leaf ''C'' 1]) = Inr 0
   \<and> fitch unnamed3 = Inr (1, [])"
  using unnamed3_eval unnamed3_eff unnamed3_fitch by simp

text \<open>
  Where Pass 1 is right: for a binary tree with valid leaf states Pass 1 returns, no full
  assignment has fewer state changes than the number it returns, and some full assignment
  has exactly that many.
\<close>

theorem pass1_minimal_binary:
  assumes "valid_leaves t" and "binary t"
  shows "\<exists>t1 m. fitch_pass1 t = Inr (t1, m)
           \<and> (\<forall>a. singleton_assignment a t \<longrightarrow> m \<le> transitions a)
           \<and> (\<exists>a. singleton_assignment a t \<and> transitions a = m)"
  using pass1_pure[OF valid_leaves_present[OF assms(1)]] fitch_lower_bound[OF assms(1)]
    fitch_attained[OF assms] by auto

theorem pass1_minimal_binary_witness:
  "valid_leaves named3 \<and> binary named3
   \<and> (\<exists>t1 m. fitch_pass1 named3 = Inr (t1, m)
           \<and> (\<forall>a. singleton_assignment a named3 \<longrightarrow> m \<le> transitions a)
           \<and> (\<exists>a. singleton_assignment a named3 \<and> transitions a = m))"
proof -
  have v: "valid_leaves named3" by (simp add: named3_def inner_def leaf_def)
  have b: "binary named3" by (simp add: named3_def inner_def leaf_def)
  from pass1_minimal_binary[OF v b] v b show ?thesis by simp
qed

text \<open>
  C3. The number Pass 1 returns should be the least number of state changes of any full
  assignment; on a node with more than two children it is not. On the star with leaf
  states 1, 1, 0, 0 Pass 1 returns 1, every full assignment has at least two state
  changes, and the reconstruction, which accepts a candidate only at exactly
  \<open>min_changes\<close> changes, returns no tree.
\<close>

theorem pass1_star4_undercount:
  "fitch_pass1 star4 =
     Inr (Node ''r'' 1 (Some {0, 1}) (Some UNION) False False
            [leaf ''A'' 1, leaf ''B'' 1, leaf ''C'' 0, leaf ''D'' 0], 1)
   \<and> \<not> (\<exists>a. singleton_assignment a star4 \<and> transitions a < 2)
   \<and> fitch star4 = Inr (1, [])"
proof (intro conjI)
  show "fitch_pass1 star4 =
     Inr (Node ''r'' 1 (Some {0, 1}) (Some UNION) False False
            [leaf ''A'' 1, leaf ''B'' 1, leaf ''C'' 0, leaf ''D'' 0], 1)"
    by (simp add: star4_def inner_def leaf_def Let_def insert_commute)
  show "\<not> (\<exists>a. singleton_assignment a star4 \<and> transitions a < 2)"
  proof
    assume "\<exists>a. singleton_assignment a star4 \<and> transitions a < 2"
    then obtain a where sa: "singleton_assignment a star4" and tr: "transitions a < 2" by blast
    obtain nm d st op g l cs where a: "a = Node nm d st op g l cs" by (cases a)
    from sa[unfolded a star4_def inner_def leaf_def]
    obtain a1 a2 a3 a4 where cs: "cs = [a1, a2, a3, a4]"
      and s1: "singleton_assignment a1 (Node ''A'' 1 (Some {1}) None False False [])"
      and s2: "singleton_assignment a2 (Node ''B'' 1 (Some {1}) None False False [])"
      and s3: "singleton_assignment a3 (Node ''C'' 1 (Some {0}) None False False [])"
      and s4: "singleton_assignment a4 (Node ''D'' 1 (Some {0}) None False False [])"
      by (auto simp: list_all2_Cons2)
    have l1: "state a1 = Some {1} \<and> transitions a1 = 0" using s1 by (cases a1) auto
    have l2: "state a2 = Some {1} \<and> transitions a2 = 0" using s2 by (cases a2) auto
    have l3: "state a3 = Some {0} \<and> transitions a3 = 0" using s3 by (cases a3) auto
    have l4: "state a4 = Some {0} \<and> transitions a4 = 0" using s4 by (cases a4) auto
    have "transitions a = (if Some {1} \<noteq> st then 2 else 0) + (if Some {0} \<noteq> st then 2 else 0)"
      unfolding a cs by (simp add: l1 l2 l3 l4)
    moreover have "Some {1} \<noteq> st \<or> Some {0} \<noteq> st"
    proof (cases "st = Some {1}")
      case True
      have "(Some {0} :: int set option) \<noteq> Some {1}" by simp
      with True show ?thesis by simp
    next
      case False
      then show ?thesis by blast
    qed
    ultimately have "2 \<le> transitions a" by auto
    with tr show False by simp
  qed
  show "fitch star4 = Inr (1, [])"
    by (simp add: star4_def example_defs insert_commute)
qed



text \<open>
  C5. When more than ten distinct nodes are ambiguous after Pass 2, the reconstruction
  returns the Pass 1 counter together with an empty collection of annotated trees.
\<close>

theorem fitch_bound_enforcement:
  assumes "run_passes tree = Inr (tree2, min_changes, ambiguous_nodes)"
      and "10 < card (set (map fst ambiguous_nodes))"
  shows "fitch tree = Inr (min_changes, [])"
proof -
  from assms(2) have ne: "ambiguous_nodes \<noteq> []" by auto
  from assms(1) obtain tree1 where p1: "fitch_pass1 tree = Inr (tree1, min_changes)"
    and p2: "fitch_pass2 tree1 = Inr (tree2, ambiguous_nodes)"
    by (auto simp: run_passes_def split: sum.splits prod.splits)
  show ?thesis
    using ne assms(2) by (simp add: fitch_def fitch'_def p1 p2 Let_def)
qed

lemma chain11_passes:
  "\<exists>t2 amb. run_passes chain11 = Inr (t2, 1, amb) \<and> 10 < card (set (map fst amb))"
  by (simp add: run_passes_def chain11_def inner_def leaf_def fitch_pass2_def Let_def)

theorem fitch_bound_enforcement_witness:
  "\<exists>t2 amb. run_passes chain11 = Inr (t2, 1, amb) \<and> 10 < card (set (map fst amb))
     \<and> fitch chain11 = Inr (1, [])"
  using fitch_bound_enforcement chain11_passes by blast




text \<open>
  C7. A tree with a leaf that has no state makes the reconstruction fail with
  \<^verbatim>\<open>AttributeError\<close>, raised where the state is first read.
\<close>

theorem missing_leaf_state_attribute_error:
  assumes "\<not> leaf_states_present t"
  shows "fitch t = Inl AttributeError"
proof (cases "children t = []")
  case True
  obtain nm d st op g l cs where t: "t = Node nm d st op g l cs" by (cases t)
  with True assms have "cs = []" "st = None" by auto
  with t show ?thesis by (simp add: fitch_def fitch'_def fitch_pass2_def)
next
  case False
  from pass1_missing_state[OF assms False] show ?thesis by (simp add: fitch_def fitch'_def)
qed

theorem missing_leaf_state_attribute_error_witness:
  "\<not> leaf_states_present bare_leaf \<and> fitch bare_leaf = Inl AttributeError"
proof -
  have h: "\<not> leaf_states_present bare_leaf" by (simp add: bare_leaf_def)
  from missing_leaf_state_attribute_error[OF h] h show ?thesis by simp
qed

text \<open>
  For a root with one good leaf and one leaf without a state, Pass 1 itself raises
  \<^verbatim>\<open>AttributeError\<close>; the reconstruction does not fail with \<open>InvalidInputError\<close>.
\<close>

theorem no_invalid_input_error_counterexample:
  "fitch_pass1 stateless_leaf = Inl AttributeError
   \<and> fitch stateless_leaf = Inl AttributeError
   \<and> fitch stateless_leaf \<noteq> Inl InvalidInputError"
  by (simp add: stateless_leaf_def example_defs)

text \<open>
  C8. For a tree stored at an address, two runs of the entry point in a row both return,
  neither changes any object that existed before the first run (so the tree at the
  address is still the input tree, with its topology, states, operations and flags), and
  both results denote the same value: the same \<open>min_changes\<close> and the same annotated trees.
\<close>

theorem fitch_store_twice:
  assumes "load k h a = Some tree"
  shows "\<exists>h1 r1 h2 r2.
           fitch_store k h a = Some (h1, r1) \<and> fitch_store k h1 a = Some (h2, r2)
           \<and> take (length h) h1 = h \<and> take (length h) h2 = h
           \<and> load k h1 a = Some tree \<and> load k h2 a = Some tree
           \<and> denotes h1 r1 (fitch tree) \<and> denotes h2 r2 (fitch tree)"
proof -
  from fitch_store_runs[OF assms] obtain h1 r1 where
    run1: "fitch_store k h a = Some (h1, r1)" and len1: "length h \<le> length h1"
    and pre1: "\<forall>b<length h. h1 ! b = h ! b" and den1: "denotes h1 r1 (fitch tree)" by blast
  have l1: "load k h1 a = Some tree" by (rule load_frame[OF assms len1]) (simp add: pre1)
  from fitch_store_runs[OF l1] obtain h2 r2 where
    run2: "fitch_store k h1 a = Some (h2, r2)" and len2: "length h1 \<le> length h2"
    and pre2: "\<forall>b<length h1. h2 ! b = h1 ! b" and den2: "denotes h2 r2 (fitch tree)" by blast
  have pre12: "\<forall>b<length h. h2 ! b = h ! b" using pre1 pre2 len1 by auto
  have len12: "length h \<le> length h2" using len1 len2 by simp
  have l2: "load k h2 a = Some tree" by (rule load_frame[OF assms len12]) (simp add: pre12)
  have t1: "take (length h) h1 = h" by (rule prefix_take[OF len1]) (simp add: pre1)
  have t2: "take (length h) h2 = h" by (rule prefix_take[OF len12]) (simp add: pre12)
  from run1 run2 t1 t2 l1 l2 den1 den2 show ?thesis by blast
qed

theorem fitch_store_twice_witness:
  "load 2 heap3 2 = Some stored3
   \<and> (\<exists>h1 r1 h2 r2.
           fitch_store 2 heap3 2 = Some (h1, r1) \<and> fitch_store 2 h1 2 = Some (h2, r2)
           \<and> take (length heap3) h1 = heap3 \<and> take (length heap3) h2 = heap3
           \<and> load 2 h1 2 = Some stored3 \<and> load 2 h2 2 = Some stored3
           \<and> denotes h1 r1 (fitch stored3) \<and> denotes h2 r2 (fitch stored3))"
  using fitch_store_twice[OF heap3_load] heap3_load by simp

text \<open>
  C9. For a tree with valid leaf states and pairwise distinct node names the
  reconstruction returns, and the root of every annotated tree it returns carries \<open>{0}\<close>.
\<close>

theorem returned_trees_root_absent:
  assumes "valid_leaves t" and "distinct (node_names t)"
  shows "\<exists>m trees. fitch t = Inr (m, trees) \<and> (\<forall>tr\<in>set trees. state tr = Some {0})"
proof -
  from run_passes_pure[OF valid_leaves_present[OF assms(1)]]
  obtain amb where rp: "run_passes t = Inr (pass2_tree None t, unions t, amb)"
    and ok: "amb_ok (ambiguous_names None t) amb" by blast
  let ?t2 = "pass2_tree None t" and ?m = "unions t"
  have dn: "distinct (node_names ?t2)" using assms(2) by (simp add: node_names_pass2)
  from get_pseudo_root_distinct[OF dn] obtain pr where pr: "get_pseudo_root ?t2 = Inr pr" by blast
  from pseudo_root_state[OF valid_leaves_present[OF assms(1)] pr]
  obtain s where s: "state pr = Some s" by blast
  note veto = origin_veto_result[OF pr s]
  show ?thesis
  proof (cases "amb = []")
    case True
    from True ok have na: "ambiguous_names None t = []" by (simp add: amb_ok_empty)
    from annotate_from_total[OF valid_leaves_present[OF assms(1)], of None None]
    obtain tr where tr: "annotate_from None ?t2 = Inr tr" "state tr = Some (final None t)" by blast
    have f: "fitch t = Inr (?m, if s = {1} then [] else [tr])"
      unfolding fitch_run_passes[OF rp] using True tr veto by simp
    have "state tr = Some {0}" if "s \<noteq> {1}"
    proof -
      have "final None t \<noteq> {1}" using pseudo_root_one[OF assms(1) pr] s that by auto
      moreover have "final None t \<subseteq> {0, 1}" by (rule final_binary[OF assms(1)]) simp
      moreover have "final None t \<noteq> {}" by (rule final_nonempty[OF assms(1)]) simp
      moreover have "card (final None t) \<le> 1" by (rule unambiguous_root_card[OF assms(1) na])
      moreover have "finite (final None t)"
        using \<open>final None t \<subseteq> {0, 1}\<close> by (rule finite_subset) simp
      ultimately have "final None t = {0}"
        using card_le_one_cases[of "final None t"] by auto
      with tr show ?thesis by simp
    qed
    with f show ?thesis by auto
  next
    case False
    let ?r = "card (set (map fst amb))"
    show ?thesis
    proof (cases "?r > 10")
      case True
      with False show ?thesis unfolding fitch_run_passes[OF rp] by simp
    next
      case small: False
      let ?trees = "map (accepted_tree ?t2) (filter (accepts ?t2 ?m) (combinations amb ?r))"
      have res: "resolve ?t2 ?m (combinations amb ?r) = Inr ?trees"
        by (rule resolve_candidates[OF assms(1) ok])
      from amb_ok_nonempty[OF ok False] have inner: "children t \<noteq> []"
        by (cases t) (auto split: if_splits)
      have root: "state tr = Some {0}" if "tr \<in> set ?trees" for tr
      proof -
        from that obtain ts where ts: "ts \<in> set (combinations amb ?r)" "accepts ?t2 ?m ts"
          "tr = accepted_tree ?t2 ts" by auto
        from ts(2) have u: "unique_nodes ts" by (simp add: accepts_def)
        from candidate_node_state[OF ok ts(1) u]
        have d: "dom (node_state_of ts) = set (ambiguous_names None t)"
          and r: "ran (node_state_of ts) \<subseteq> {0, 1}" by auto
        from ts(2) have tot: "length (gain_names (node_state_of ts) True ?t2)
             + length (loss_names (node_state_of ts) ?t2) = unions t" by (simp add: accepts_def)
        from accepted_root_zero[OF assms(1,2) inner d r tot] ts(3)
        show ?thesis by (simp add: accepted_tree_def)
      qed
      have "fitch t = Inr (?m, if s = {1} then [] else ?trees)"
        unfolding fitch_run_passes[OF rp] using False small res veto by simp
      with root show ?thesis by auto
    qed
  qed
qed

theorem returned_trees_root_absent_witness:
  "valid_leaves named3 \<and> distinct (node_names named3)
   \<and> (\<exists>m trees. fitch named3 = Inr (m, trees) \<and> (\<forall>tr\<in>set trees. state tr = Some {0}))"
proof -
  have v: "valid_leaves named3" by (simp add: named3_def inner_def leaf_def)
  have d: "distinct (node_names named3)" by (simp add: named3_def inner_def leaf_def)
  from returned_trees_root_absent[OF v d] v d show ?thesis by simp
qed

text \<open>
  C10. The entry \<^verbatim>\<open>get_node_age\<close> stores for a leaf is the leaf's name; the entry of an
  internal node is the distance to its farthest leaf.
\<close>

theorem node_age_leaf_entry:
  "get_node_age named3 ''A'' = Some (Label ''A'')
   \<and> get_node_age named3 ''r'' = Some (Distance 2)"
  by (simp add: named3_def get_node_age_def inner_def leaf_def)

end
